theory Spec2Isabelle
  imports Complex_Main "HOL-Library.Multiset"
begin

section \<open>JavaScript numbers and their comparison\<close>

text \<open>
  The array holds JavaScript numbers. A number is \<open>NaN\<close>, one of the two infinities, or a
  finite value; the finite doubles are rationals and \<open><\<close> compares them exactly, so a
  finite value is modelled by the real it denotes (the two zeros, which \<open><\<close> and \<open>===\<close>
  cannot tell apart, are one value). \<open>Number(x.trim())\<close> of a text that is not a numeric
  literal is \<open>NaN\<close>.
\<close>

datatype jsnum = NaN | NegInfinity | Finite real | Infinity

text \<open>The global function \<open>isNaN\<close> on a number.\<close>

fun isNaN :: "jsnum \<Rightarrow> bool" where
  "isNaN NaN = True"
| "isNaN _ = False"

text \<open>The global function \<open>isFinite\<close> on a number.\<close>

fun isFinite :: "jsnum \<Rightarrow> bool" where
  "isFinite (Finite a) = True"
| "isFinite _ = False"

text \<open>The operator \<open><\<close> on numbers: every comparison with \<open>NaN\<close> is false.\<close>

fun js_lt :: "jsnum \<Rightarrow> jsnum \<Rightarrow> bool" where
  "js_lt (Finite a) (Finite b) = (a < b)"
| "js_lt NegInfinity (Finite b) = True"
| "js_lt NegInfinity Infinity = True"
| "js_lt (Finite a) Infinity = True"
| "js_lt _ _ = False"

text \<open>The operator \<open><=\<close> on numbers, used to say what non-descending order is.\<close>

fun js_le :: "jsnum \<Rightarrow> jsnum \<Rightarrow> bool" where
  "js_le NaN _ = False"
| "js_le _ NaN = False"
| "js_le a b = (\<not> js_lt b a)"

section \<open>The recorded steps and the global state\<close>

text \<open>
  The highlight object of a step: the optional properties \<open>pivot\<close>, \<open>compare\<close> and
  \<open>sorted\<close>; an absent property is \<open>None\<close>.
\<close>

record highlight =
  pivot :: "int option"
  compare :: "int option"
  sorted_flag :: "bool option"

definition no_highlight :: highlight where
  "no_highlight = \<lparr>pivot = None, compare = None, sorted_flag = None\<rparr>"

text \<open>One element of \<open>steps\<close>: \<open>{ array: [...arr], highlight: { ...highlight } }\<close>.\<close>

record step =
  array :: "jsnum list"
  highlight :: highlight

text \<open>
  The globals of the script that the sorter reads and writes. \<open>randomCalls\<close> counts the
  calls of \<open>Math.random()\<close> made so far: the k-th call returns \<open>rnd k\<close>, where
  \<open>rnd\<close> is the sequence of draws of the process-wide generator.
\<close>

record globals =
  array_glob :: "jsnum list"
  steps :: "step list"
  currentStep :: int
  randomCalls :: nat

text \<open>The globals as the script initialises them, before any draw.\<close>

definition initial_globals :: globals where
  "initial_globals = \<lparr>array_glob = [], steps = [], currentStep = 0, randomCalls = 0\<rparr>"

definition Math_random :: "(nat \<Rightarrow> real) \<Rightarrow> globals \<Rightarrow> real \<times> globals" where
  "Math_random rnd st = (rnd (randomCalls st), st\<lparr>randomCalls := randomCalls st + 1\<rparr>)"

text \<open>\<open>Math.random()\<close> returns a value in the half-open interval from 0 to 1.\<close>

definition unit_draws :: "(nat \<Rightarrow> real) \<Rightarrow> bool" where
  "unit_draws rnd = (\<forall>k. 0 \<le> rnd k \<and> rnd k < 1)"

text \<open>\<open>saveStep(arr, highlight = {})\<close>: push a copy of the array and of the highlight.\<close>

definition saveStep :: "jsnum list \<Rightarrow> highlight \<Rightarrow> globals \<Rightarrow> globals" where
  "saveStep arr hl st = st\<lparr>steps := steps st @ [\<lparr>array = arr, highlight = hl\<rparr>]\<rparr>"

section \<open>The instrumented randomized quicksort\<close>

text \<open>
  The destructuring swap \<open>[arr[a], arr[b]] = [arr[b], arr[a]]\<close>: the right-hand side is read
  first, then \<open>arr[a]\<close> and \<open>arr[b]\<close> are written in this order. The indices are numbers
  of the program, so integers. Outside the array the script would read \<open>undefined\<close> and
  grow the array; the sorter never gets there: its indices lie between \<open>low\<close> and \<open>high\<close>
  (lemmas \<open>randomIndex_range\<close> and \<open>partitionLoop_i_bounds\<close>), every call has
  \<open>0 \<le> low\<close> and \<open>high < arr.length\<close>, and there \<open>nat\<close> is the identity. Each theorem about
  the elements states these bounds.
\<close>

definition swap :: "jsnum list \<Rightarrow> int \<Rightarrow> int \<Rightarrow> jsnum list" where
  "swap arr a b = arr[nat a := arr ! nat b, nat b := arr ! nat a]"

text \<open>
  The \<open>for\<close> loop of \<open>randomizedPartition\<close>, from \<open>j\<close> on, with the boundary \<open>i\<close>; it
  returns the final \<open>i\<close>, the array and the globals.
\<close>

function partitionLoop ::
  "globals \<Rightarrow> jsnum list \<Rightarrow> jsnum \<Rightarrow> int \<Rightarrow> int \<Rightarrow> int \<Rightarrow> int \<times> jsnum list \<times> globals" where
  "partitionLoop st arr pivotVal high i j =
     (if j < high then
        let st1 = saveStep arr \<lparr>pivot = Some high, compare = Some j, sorted_flag = None\<rparr> st in
        if js_lt (arr ! nat j) pivotVal then
          let i1 = i + 1;
              arr1 = swap arr i1 j;
              st2 = saveStep arr1 \<lparr>pivot = Some high, compare = None, sorted_flag = None\<rparr> st1
          in partitionLoop st2 arr1 pivotVal high i1 (j + 1)
        else partitionLoop st1 arr pivotVal high i (j + 1)
      else (i, arr, st))"
  by pat_completeness auto
termination
  by (relation "measure (\<lambda>(st, arr, pivotVal, high, i, j). nat (high - j))") auto

declare partitionLoop.simps [simp del]

text \<open>
  \<open>Math.floor(Math.random() * (high - low + 1)) + low\<close>, on the draw \<open>r\<close>. The product is
  taken in the reals. The product of doubles is its rounding, which may reach the next
  integer (\<open>0.3333333333333333 * 3\<close> is \<open>1\<close>) and so may select, for some draws, the
  neighbouring index; it stays below \<open>high - low + 1\<close>, so the index it selects is one
  that this function selects for another draw of the unit interval. The theorems below
  hold for every sequence of draws, and so for every sequence of indices within range.
\<close>

definition randomIndexOf :: "real \<Rightarrow> int \<Rightarrow> int \<Rightarrow> int" where
  "randomIndexOf r low high = \<lfloor>r * real_of_int (high - low + 1)\<rfloor> + low"

definition randomizedPartition ::
  "(nat \<Rightarrow> real) \<Rightarrow> globals \<Rightarrow> jsnum list \<Rightarrow> int \<Rightarrow> int \<Rightarrow> int \<times> jsnum list \<times> globals" where
  "randomizedPartition rnd st arr low high =
     (let (r, st0) = Math_random rnd st;
          randomIndex = randomIndexOf r low high;
          st1 = saveStep arr \<lparr>pivot = Some randomIndex, compare = None, sorted_flag = None\<rparr> st0;
          arr1 = swap arr randomIndex high;
          pivotVal = arr1 ! nat high;
          (i, arr2, st2) = partitionLoop st1 arr1 pivotVal high (low - 1) low;
          arr3 = swap arr2 (i + 1) high;
          st3 = saveStep arr3 no_highlight st2
      in (i + 1, arr3, st3))"

lemma partitionLoop_i_bounds:
  "partitionLoop st arr pivotVal high i j = (i', arr', st') \<Longrightarrow> j \<le> high \<Longrightarrow>
   i \<le> i' \<and> i' - i \<le> high - j"
proof (induction st arr pivotVal high i j rule: partitionLoop.induct)
  case (1 st arr pivotVal high i j)
  show ?case
  proof (cases "j < high")
    case False
    with "1.prems" show ?thesis by (simp add: partitionLoop.simps)
  next
    case True
    show ?thesis
    proof (cases "js_lt (arr ! nat j) pivotVal")
      case lt: True
      from "1.prems" True lt "1.IH"(1)[OF True refl lt refl refl refl] show ?thesis
        by (simp add: partitionLoop.simps Let_def)
    next
      case ge: False
      from "1.prems" True ge "1.IH"(2)[OF True refl ge] show ?thesis
        by (simp add: partitionLoop.simps Let_def)
    qed
  qed
qed

lemma randomizedPartition_pi_bounds:
  assumes "randomizedPartition rnd st arr low high = (p, arr', st')" and "low \<le> high"
  shows "low \<le> p \<and> p \<le> high"
proof -
  obtain i arr2 st2 where
    L: "partitionLoop (saveStep arr \<lparr>pivot = Some (randomIndexOf (rnd (randomCalls st)) low high),
            compare = None, sorted_flag = None\<rparr> (st\<lparr>randomCalls := randomCalls st + 1\<rparr>))
          (swap arr (randomIndexOf (rnd (randomCalls st)) low high) high)
          (swap arr (randomIndexOf (rnd (randomCalls st)) low high) high ! nat high)
          high (low - 1) low = (i, arr2, st2)"
    by (metis prod_cases3)
  from assms(1) L have "p = i + 1"
    by (simp add: randomizedPartition_def Math_random_def Let_def)
  with partitionLoop_i_bounds[OF L assms(2)] show ?thesis by simp
qed

text \<open>
  \<open>randomizedQuickSort(arr, low, high)\<close>: the array is mutated in place, so the model
  returns it with the globals. \<open>pIdx\<close> is the local \<open>pi\<close> of the source. The recursion
  is total whatever the draws are: the index that \<open>randomizedPartition\<close> returns lies in
  the subrange (lemma \<open>randomizedPartition_pi_bounds\<close>), so both recursive calls are on
  shorter subranges.
\<close>

function randomizedQuickSort ::
  "(nat \<Rightarrow> real) \<Rightarrow> globals \<Rightarrow> jsnum list \<Rightarrow> int \<Rightarrow> int \<Rightarrow> jsnum list \<times> globals" where
  "randomizedQuickSort rnd st arr low high =
     (if low < high then
        let (pIdx, arr1, st1) = randomizedPartition rnd st arr low high;
            (arr2, st2) = randomizedQuickSort rnd st1 arr1 low (pIdx - 1)
        in randomizedQuickSort rnd st2 arr2 (pIdx + 1) high
      else (arr, st))"
  by pat_completeness auto
termination
proof (relation "measure (\<lambda>(rnd, st, arr, low, high). nat (high - low + 1))", goal_cases)
  case 1
  show ?case by simp
next
  case (2 rnd st arr low high x pIdx y arr1 st1)
  then have "randomizedPartition rnd st arr low high = (pIdx, arr1, st1)" by simp
  from randomizedPartition_pi_bounds[OF this] 2(1) show ?case by simp
next
  case (3 rnd st arr low high x pIdx y arr1 st1 z arr2 st2)
  then have "randomizedPartition rnd st arr low high = (pIdx, arr1, st1)" by simp
  from randomizedPartition_pi_bounds[OF this] 3(1) show ?case by simp
qed

declare randomizedQuickSort.simps [simp del]

section \<open>The entry point\<close>

text \<open>
  What \<open>generateArray\<close> reads from the text box: \<open>Blank\<close> when the trimmed text is
  empty, otherwise \<open>Numbers ns\<close> with \<open>ns\<close> the array
  \<open>input.split(",").map(x => Number(x.trim()))\<close>.
\<close>

datatype user_input = Blank | Numbers "jsnum list"

text \<open>The one failure: the alert "Enter valid numbers separated by commas." and the early return.\<close>

datatype error = InvalidInput

definition defaultSize :: int where
  "defaultSize = 10"

text \<open>
  The loop that fills \<open>array\<close> with \<open>Math.floor(Math.random() * 100) + 1\<close>, from \<open>i\<close> on.
  The product is taken in the reals, as in \<open>randomIndexOf\<close>: for some draws the double
  product rounds up to the next integer and the script pushes the next value. No statement
  below speaks of the values drawn.
\<close>

function randomFill :: "(nat \<Rightarrow> real) \<Rightarrow> globals \<Rightarrow> int \<Rightarrow> globals" where
  "randomFill rnd st i =
     (if i < defaultSize then
        let (r, st1) = Math_random rnd st
        in randomFill rnd
             (st1\<lparr>array_glob := array_glob st1 @ [Finite (real_of_int (\<lfloor>r * 100\<rfloor> + 1))]\<rparr>) (i + 1)
      else st)"
  by pat_completeness auto
termination
  by (relation "measure (\<lambda>(rnd, st, i). nat (defaultSize - i))") auto

declare randomFill.simps [simp del]

text \<open>
  \<open>generateArray()\<close>, without the timer and the rendering. The steps are cleared first;
  an array with a \<open>NaN\<close> entry is refused before anything is recorded; otherwise the
  initial step is saved, a copy of the array is sorted, and the array of the last recorded
  step is saved once more with \<open>{ sorted: true }\<close>.
\<close>

definition generateArray ::
  "(nat \<Rightarrow> real) \<Rightarrow> user_input \<Rightarrow> globals \<Rightarrow> (error + unit) \<times> globals" where
  "generateArray rnd inp st =
     (let st0 = st\<lparr>steps := [], currentStep := 0\<rparr>;
          parsed = (case inp of
                      Blank \<Rightarrow> Inr (randomFill rnd (st0\<lparr>array_glob := []\<rparr>) 0)
                    | Numbers numbers \<Rightarrow>
                        if list_ex isNaN numbers then Inl InvalidInput
                        else Inr (st0\<lparr>array_glob := numbers\<rparr>))
      in case parsed of
           Inl e \<Rightarrow> (Inl e, st0)
         | Inr st1 \<Rightarrow>
             let st2 = saveStep (array_glob st1) no_highlight st1;
                 (arr, st3) = randomizedQuickSort rnd st2 (array_glob st2) 0
                                (int (length (array_glob st2)) - 1);
                 st4 = saveStep (array (last (steps st3)))
                         \<lparr>pivot = None, compare = None, sorted_flag = Some True\<rparr> st3
             in (Inr (), st4))"

section \<open>Notions of the specification\<close>

text \<open>
  The highlights that the scan of a partition is to record, in the words of the
  specification: for each \<open>j\<close> from \<open>low\<close> to \<open>high - 1\<close>, ascending, one highlight with
  the pivot at \<open>high\<close> and the comparison at \<open>j\<close>, followed, exactly when
  \<open>arr[j] < pivotValue\<close>, by one with the pivot at \<open>high\<close> and no comparison.
\<close>

definition scanHighlights :: "jsnum list \<Rightarrow> jsnum \<Rightarrow> int \<Rightarrow> int \<Rightarrow> highlight list" where
  "scanHighlights arr pivotVal low high =
     concat (map (\<lambda>j. \<lparr>pivot = Some high, compare = Some j, sorted_flag = None\<rparr> #
                       (if js_lt (arr ! nat j) pivotVal
                        then [\<lparr>pivot = Some high, compare = None, sorted_flag = None\<rparr>]
                        else []))
                 [low..high - 1])"

text \<open>
  The steps that the scan is to record, arrays included, in the words of the specification:
  for \<open>j\<close> from \<open>low\<close> to \<open>high - 1\<close>, ascending, record the state with the pivot at \<open>high\<close>
  and the comparison at \<open>j\<close>; if \<open>arr[j] < pivotValue\<close>, increment \<open>i\<close>, swap \<open>arr[i]\<close> and
  \<open>arr[j]\<close>, and record the state with the pivot at \<open>high\<close> (after the swap, no comparison).
  The list of the indices \<open>j\<close> still to visit is the last argument; \<open>i\<close> and \<open>arr\<close> are the
  boundary and the array when its first index is reached.
\<close>

fun scanSteps :: "jsnum \<Rightarrow> int \<Rightarrow> int \<Rightarrow> jsnum list \<Rightarrow> int list \<Rightarrow> step list" where
  "scanSteps pivotVal high i arr [] = []"
| "scanSteps pivotVal high i arr (j # js) =
     \<lparr>array = arr, highlight = \<lparr>pivot = Some high, compare = Some j, sorted_flag = None\<rparr>\<rparr> #
     (if js_lt (arr ! nat j) pivotVal
      then \<lparr>array = swap arr (i + 1) j,
            highlight = \<lparr>pivot = Some high, compare = None, sorted_flag = None\<rparr>\<rparr> #
           scanSteps pivotVal high (i + 1) (swap arr (i + 1) j) js
      else scanSteps pivotVal high i arr js)"

text \<open>
  The pivot indices that a run of \<open>randomizedQuickSort\<close> chooses, in the order of the calls
  of \<open>randomizedPartition\<close>: the value of the local \<open>randomIndex\<close> of each call.
\<close>

function pivotChoices ::
  "(nat \<Rightarrow> real) \<Rightarrow> globals \<Rightarrow> jsnum list \<Rightarrow> int \<Rightarrow> int \<Rightarrow> int list" where
  "pivotChoices rnd st arr low high =
     (if low < high then
        let (pIdx, arr1, st1) = randomizedPartition rnd st arr low high;
            (arr2, st2) = randomizedQuickSort rnd st1 arr1 low (pIdx - 1)
        in randomIndexOf (rnd (randomCalls st)) low high #
           pivotChoices rnd st1 arr1 low (pIdx - 1) @ pivotChoices rnd st2 arr2 (pIdx + 1) high
      else [])"
  by pat_completeness auto
termination
proof (relation "measure (\<lambda>(rnd, st, arr, low, high). nat (high - low + 1))", goal_cases)
  case 1
  show ?case by simp
next
  case (2 rnd st arr low high x pIdx y arr1 st1 z arr2 st2)
  then have "randomizedPartition rnd st arr low high = (pIdx, arr1, st1)" by simp
  from randomizedPartition_pi_bounds[OF this] 2(1) show ?case by simp
next
  case (3 rnd st arr low high x pIdx y arr1 st1 z arr2 st2)
  then have "randomizedPartition rnd st arr low high = (pIdx, arr1, st1)" by simp
  from randomizedPartition_pi_bounds[OF this] 3(1) show ?case by simp
qed

declare pivotChoices.simps [simp del]

text \<open>The pivot indices chosen by a run of \<open>generateArray\<close> on the numbers \<open>ns\<close>.\<close>

definition chosenPivots :: "(nat \<Rightarrow> real) \<Rightarrow> jsnum list \<Rightarrow> globals \<Rightarrow> int list" where
  "chosenPivots rnd ns st =
     pivotChoices rnd (saveStep ns no_highlight (st\<lparr>steps := [], currentStep := 0, array_glob := ns\<rparr>))
       ns 0 (int (length ns) - 1)"

section \<open>The same program over an explicit store of array objects\<close>

text \<open>
  In the script an array is an object: \<open>array\<close>, the parameter \<open>arr\<close> and the \<open>array\<close>
  property of a step are references, and \<open>[...arr]\<close>, \<open>map\<close> and an array literal make a
  new object. To speak of what a later mutation of an array can reach, the program is
  modelled a second time with the objects in a store: a reference is an address, the store
  maps an address to the elements of the array there, and a new array takes the next unused
  address \<open>fresh\<close>.
\<close>

type_synonym ref = nat

record step_h =
  array_ref :: ref
  highlight_h :: highlight

record heap_globals =
  store :: "ref \<Rightarrow> jsnum list"
  fresh :: ref
  array_var :: ref
  steps_h :: "step_h list"
  currentStep_h :: int
  randomCalls_h :: nat

text \<open>A new array object with the elements \<open>xs\<close>; its reference is returned.\<close>

definition newArray :: "jsnum list \<Rightarrow> heap_globals \<Rightarrow> ref \<times> heap_globals" where
  "newArray xs st = (fresh st, st\<lparr>store := (store st)(fresh st := xs), fresh := fresh st + 1\<rparr>)"

definition Math_random_h :: "(nat \<Rightarrow> real) \<Rightarrow> heap_globals \<Rightarrow> real \<times> heap_globals" where
  "Math_random_h rnd st = (rnd (randomCalls_h st), st\<lparr>randomCalls_h := randomCalls_h st + 1\<rparr>)"

text \<open>\<open>saveStep\<close>: the step holds the reference of the new array \<open>[...arr]\<close>.\<close>

definition saveStep_h :: "ref \<Rightarrow> highlight \<Rightarrow> heap_globals \<Rightarrow> heap_globals" where
  "saveStep_h arr hl st =
     (let (copy, st1) = newArray (store st arr) st
      in st1\<lparr>steps_h := steps_h st1 @ [\<lparr>array_ref = copy, highlight_h = hl\<rparr>]\<rparr>)"

text \<open>The swap writes into the array object that \<open>arr\<close> refers to.\<close>

definition swap_h :: "ref \<Rightarrow> int \<Rightarrow> int \<Rightarrow> heap_globals \<Rightarrow> heap_globals" where
  "swap_h arr a b st = st\<lparr>store := (store st)(arr := swap (store st arr) a b)\<rparr>"

function partitionLoop_h ::
  "heap_globals \<Rightarrow> ref \<Rightarrow> jsnum \<Rightarrow> int \<Rightarrow> int \<Rightarrow> int \<Rightarrow> int \<times> heap_globals" where
  "partitionLoop_h st arr pivotVal high i j =
     (if j < high then
        let st1 = saveStep_h arr \<lparr>pivot = Some high, compare = Some j, sorted_flag = None\<rparr> st in
        if js_lt (store st1 arr ! nat j) pivotVal then
          let i1 = i + 1;
              st2 = swap_h arr i1 j st1;
              st3 = saveStep_h arr \<lparr>pivot = Some high, compare = None, sorted_flag = None\<rparr> st2
          in partitionLoop_h st3 arr pivotVal high i1 (j + 1)
        else partitionLoop_h st1 arr pivotVal high i (j + 1)
      else (i, st))"
  by pat_completeness auto
termination
  by (relation "measure (\<lambda>(st, arr, pivotVal, high, i, j). nat (high - j))") auto

declare partitionLoop_h.simps [simp del]

definition randomizedPartition_h ::
  "(nat \<Rightarrow> real) \<Rightarrow> heap_globals \<Rightarrow> ref \<Rightarrow> int \<Rightarrow> int \<Rightarrow> int \<times> heap_globals" where
  "randomizedPartition_h rnd st arr low high =
     (let (r, st0) = Math_random_h rnd st;
          randomIndex = randomIndexOf r low high;
          st1 = saveStep_h arr \<lparr>pivot = Some randomIndex, compare = None, sorted_flag = None\<rparr> st0;
          st2 = swap_h arr randomIndex high st1;
          pivotVal = store st2 arr ! nat high;
          (i, st3) = partitionLoop_h st2 arr pivotVal high (low - 1) low;
          st4 = swap_h arr (i + 1) high st3;
          st5 = saveStep_h arr no_highlight st4
      in (i + 1, st5))"

lemma partitionLoop_h_i_bounds:
  "partitionLoop_h st arr pivotVal high i j = (i', st') \<Longrightarrow> j \<le> high \<Longrightarrow>
   i \<le> i' \<and> i' - i \<le> high - j"
proof (induction st arr pivotVal high i j rule: partitionLoop_h.induct)
  case (1 st arr pivotVal high i j)
  show ?case
  proof (cases "j < high")
    case False
    with "1.prems" show ?thesis by (simp add: partitionLoop_h.simps)
  next
    case True
    define st1 where "st1 = saveStep_h arr \<lparr>pivot = Some high, compare = Some j, sorted_flag = None\<rparr> st"
    show ?thesis
    proof (cases "js_lt (store st1 arr ! nat j) pivotVal")
      case lt: True
      from "1.prems" True lt "1.IH"(1)[OF True st1_def lt refl refl refl] show ?thesis
        by (simp add: partitionLoop_h.simps[of st] Let_def st1_def)
    next
      case ge: False
      from "1.prems" True ge "1.IH"(2)[OF True st1_def ge] show ?thesis
        by (simp add: partitionLoop_h.simps[of st] Let_def st1_def)
    qed
  qed
qed

lemma randomizedPartition_h_pi_bounds:
  assumes "randomizedPartition_h rnd st arr low high = (p, st')" and "low \<le> high"
  shows "low \<le> p \<and> p \<le> high"
proof -
  define st2 where "st2 = swap_h arr (randomIndexOf (rnd (randomCalls_h st)) low high) high
     (saveStep_h arr \<lparr>pivot = Some (randomIndexOf (rnd (randomCalls_h st)) low high),
            compare = None, sorted_flag = None\<rparr> (st\<lparr>randomCalls_h := randomCalls_h st + 1\<rparr>))"
  obtain i st3 where
    L: "partitionLoop_h st2 arr (store st2 arr ! nat high) high (low - 1) low = (i, st3)"
    by (metis surj_pair)
  from assms(1) L have "p = i + 1"
    by (simp add: randomizedPartition_h_def Math_random_h_def Let_def st2_def)
  with partitionLoop_h_i_bounds[OF L assms(2)] show ?thesis by simp
qed

function randomizedQuickSort_h ::
  "(nat \<Rightarrow> real) \<Rightarrow> heap_globals \<Rightarrow> ref \<Rightarrow> int \<Rightarrow> int \<Rightarrow> heap_globals" where
  "randomizedQuickSort_h rnd st arr low high =
     (if low < high then
        let (pIdx, st1) = randomizedPartition_h rnd st arr low high;
            st2 = randomizedQuickSort_h rnd st1 arr low (pIdx - 1)
        in randomizedQuickSort_h rnd st2 arr (pIdx + 1) high
      else st)"
  by pat_completeness auto
termination
proof (relation "measure (\<lambda>(rnd, st, arr, low, high). nat (high - low + 1))", goal_cases)
  case 1
  show ?case by simp
next
  case (2 rnd st arr low high x pIdx st1)
  then have "randomizedPartition_h rnd st arr low high = (pIdx, st1)" by simp
  from randomizedPartition_h_pi_bounds[OF this] 2(1) show ?case by simp
next
  case (3 rnd st arr low high x pIdx st1 st2)
  then have "randomizedPartition_h rnd st arr low high = (pIdx, st1)" by simp
  from randomizedPartition_h_pi_bounds[OF this] 3(1) show ?case by simp
qed

declare randomizedQuickSort_h.simps [simp del]

text \<open>\<open>array.push(x)\<close> in the filling loop writes into the object of \<open>array\<close>.\<close>

function randomFill_h :: "(nat \<Rightarrow> real) \<Rightarrow> heap_globals \<Rightarrow> int \<Rightarrow> heap_globals" where
  "randomFill_h rnd st i =
     (if i < defaultSize then
        let (r, st1) = Math_random_h rnd st
        in randomFill_h rnd
             (st1\<lparr>store := (store st1)(array_var st1 :=
                     store st1 (array_var st1) @ [Finite (real_of_int (\<lfloor>r * 100\<rfloor> + 1))])\<rparr>) (i + 1)
      else st)"
  by pat_completeness auto
termination
  by (relation "measure (\<lambda>(rnd, st, i). nat (defaultSize - i))") auto

declare randomFill_h.simps [simp del]

text \<open>
  \<open>generateArray\<close>: \<open>array = []\<close> and the result of \<open>map\<close> are new objects, \<open>array = numbers\<close>
  stores the reference, \<open>[...array]\<close> is the new object that the sorter works on, and the
  last call of \<open>saveStep\<close> is given the array of the last recorded step.
\<close>

definition generateArray_h ::
  "(nat \<Rightarrow> real) \<Rightarrow> user_input \<Rightarrow> heap_globals \<Rightarrow> (error + unit) \<times> heap_globals" where
  "generateArray_h rnd inp st =
     (let st0 = st\<lparr>steps_h := [], currentStep_h := 0\<rparr>;
          parsed = (case inp of
                      Blank \<Rightarrow>
                        let (empty, sta) = newArray [] st0
                        in Inr (randomFill_h rnd (sta\<lparr>array_var := empty\<rparr>) 0)
                    | Numbers ns \<Rightarrow>
                        let (numbers, sta) = newArray ns st0
                        in if list_ex isNaN (store sta numbers) then Inl (InvalidInput, sta)
                           else Inr (sta\<lparr>array_var := numbers\<rparr>))
      in case parsed of
           Inl (e, sta) \<Rightarrow> (Inl e, sta)
         | Inr st1 \<Rightarrow>
             let st2 = saveStep_h (array_var st1) no_highlight st1;
                 (work, st3) = newArray (store st2 (array_var st2)) st2;
                 st4 = randomizedQuickSort_h rnd st3 work 0
                         (int (length (store st3 (array_var st3))) - 1);
                 st5 = saveStep_h (array_ref (last (steps_h st4)))
                         \<lparr>pivot = None, compare = None, sorted_flag = Some True\<rparr> st4
             in (Inr (), st5))"

text \<open>The store as the script initialises it: \<open>array = []\<close> is the object at address 0.\<close>

definition initial_heap :: heap_globals where
  "initial_heap = \<lparr>store = (\<lambda>_. []), fresh = 1, array_var = 0, steps_h = [],
                    currentStep_h = 0, randomCalls_h = 0\<rparr>"

text \<open>What a reader of the steps sees: each step with the elements of its array.\<close>

definition trace_of :: "heap_globals \<Rightarrow> step list" where
  "trace_of st = map (\<lambda>s. \<lparr>array = store st (array_ref s), highlight = highlight_h s\<rparr>) (steps_h st)"

text \<open>The globals of the first model that a state of the store stands for.\<close>

definition globals_of :: "heap_globals \<Rightarrow> globals" where
  "globals_of st = \<lparr>array_glob = store st (array_var st), steps = trace_of st,
                     currentStep = currentStep_h st, randomCalls = randomCalls_h st\<rparr>"

text \<open>Every reference in use is below \<open>fresh\<close>, no step holds the object of \<open>array\<close>, and no two
  steps share an array.\<close>

definition allocated :: "heap_globals \<Rightarrow> bool" where
  "allocated st = (array_var st < fresh st
                   \<and> list_all (\<lambda>s. array_ref s < fresh st \<and> array_ref s \<noteq> array_var st) (steps_h st)
                   \<and> distinct (map array_ref (steps_h st)))"

text \<open>The array at \<open>arr\<close> is an object of its own: neither \<open>array\<close> nor the array of a step.\<close>

definition apart :: "heap_globals \<Rightarrow> ref \<Rightarrow> bool" where
  "apart st arr = (arr < fresh st \<and> arr \<noteq> array_var st \<and> list_all (\<lambda>s. array_ref s \<noteq> arr) (steps_h st))"

section \<open>Numbers, swaps and the random index\<close>

lemma js_lt_irrefl [simp]: "\<not> js_lt x x"
  by (cases x) auto

lemma js_lt_trans: "js_lt x y \<Longrightarrow> js_lt y z \<Longrightarrow> js_lt x z"
  by (cases x; cases y; cases z) auto

lemma js_le_refl: "\<not> isNaN x \<Longrightarrow> js_le x x"
  by (cases x) auto

lemma js_lt_imp_le: "js_lt x y \<Longrightarrow> js_le x y"
  by (cases x; cases y) auto

lemma not_js_lt_imp_le: "\<not> js_lt y x \<Longrightarrow> \<not> isNaN x \<Longrightarrow> \<not> isNaN y \<Longrightarrow> js_le x y"
  by (cases x; cases y) auto

lemma js_lt_le_trans: "js_lt x y \<Longrightarrow> js_le y z \<Longrightarrow> js_le x z"
  by (cases x; cases y; cases z) auto

lemma length_swap [simp]: "length (swap arr a b) = length arr"
  by (simp add: swap_def)

lemma mset_swap_in_range:
  "0 \<le> a \<Longrightarrow> a < int (length arr) \<Longrightarrow> 0 \<le> b \<Longrightarrow> b < int (length arr) \<Longrightarrow>
   mset (swap arr a b) = mset arr"
  by (simp add: swap_def mset_swap)

lemma swap_nth:
  "0 \<le> a \<Longrightarrow> a < int (length arr) \<Longrightarrow> 0 \<le> b \<Longrightarrow> b < int (length arr) \<Longrightarrow> 0 \<le> k \<Longrightarrow>
   swap arr a b ! nat k = (if k = b then arr ! nat a else if k = a then arr ! nat b else arr ! nat k)"
  by (auto simp: swap_def nth_list_update)

lemma swap_nth_other:
  "0 \<le> a \<Longrightarrow> 0 \<le> b \<Longrightarrow> 0 \<le> k \<Longrightarrow> k \<noteq> a \<Longrightarrow> k \<noteq> b \<Longrightarrow> swap arr a b ! nat k = arr ! nat k"
  by (auto simp: swap_def nth_list_update)

lemma randomIndex_range:
  assumes "0 \<le> r" "r < 1" "low \<le> high"
  shows "low \<le> randomIndexOf r low high \<and> randomIndexOf r low high \<le> high"
proof -
  let ?n = "high - low + 1"
  have n: "0 < real_of_int ?n" using assms(3) by simp
  have "0 \<le> r * real_of_int ?n" using assms(1) n by simp
  then have lo: "0 \<le> \<lfloor>r * real_of_int ?n\<rfloor>" by simp
  have "r * real_of_int ?n < real_of_int ?n" using assms(2) n by simp
  then have hi: "\<lfloor>r * real_of_int ?n\<rfloor> < ?n" using floor_less_iff by blast
  from lo hi show ?thesis by (simp add: randomIndexOf_def)
qed


lemma partitionLoop_length:
  "partitionLoop st arr pv high i j = (i', arr', st') \<Longrightarrow> length arr' = length arr"
proof (induction st arr pv high i j rule: partitionLoop.induct)
  case (1 st arr pv high i j)
  show ?case
  proof (cases "j < high")
    case False
    with "1.prems" show ?thesis by (simp add: partitionLoop.simps)
  next
    case True
    show ?thesis
    proof (cases "js_lt (arr ! nat j) pv")
      case lt: True
      from "1.prems" True lt "1.IH"(1)[OF True refl lt refl refl refl] show ?thesis
        by (simp add: partitionLoop.simps Let_def)
    next
      case ge: False
      from "1.prems" True ge "1.IH"(2)[OF True refl ge] show ?thesis
        by (simp add: partitionLoop.simps Let_def)
    qed
  qed
qed

lemma partitionLoop_post:
  assumes "partitionLoop st arr pv high i j = (i', arr', st')"
    and "0 \<le> low" "low - 1 \<le> i" "i < j" "j \<le> high" "high < int (length arr)"
    and "\<forall>k. low \<le> k \<and> k \<le> i \<longrightarrow> js_lt (arr ! nat k) pv"
    and "\<forall>k. i < k \<and> k < j \<longrightarrow> \<not> js_lt (arr ! nat k) pv"
    and "\<forall>k. low \<le> k \<and> k \<le> high \<longrightarrow> P (arr ! nat k)"
  shows "mset arr' = mset arr
    \<and> (\<forall>k. low \<le> k \<and> k \<le> i' \<longrightarrow> js_lt (arr' ! nat k) pv)
    \<and> (\<forall>k. i' < k \<and> k < high \<longrightarrow> \<not> js_lt (arr' ! nat k) pv)
    \<and> (\<forall>k. 0 \<le> k \<and> (k \<le> i \<or> high \<le> k) \<longrightarrow> arr' ! nat k = arr ! nat k)
    \<and> (\<forall>k. low \<le> k \<and> k \<le> high \<longrightarrow> P (arr' ! nat k))"
  using assms
proof (induction st arr pv high i j arbitrary: i' arr' st' rule: partitionLoop.induct)
  case (1 st arr pv high i j)
  show ?case
  proof (cases "j < high")
    case False
    with "1.prems" have "j = high" "i' = i" "arr' = arr" by (simp_all add: partitionLoop.simps)
    with "1.prems" show ?thesis by auto
  next
    case True
    define st1 where "st1 = saveStep arr \<lparr>pivot = Some high, compare = Some j, sorted_flag = None\<rparr> st"
    show ?thesis
    proof (cases "js_lt (arr ! nat j) pv")
      case ge: False
      from "1.prems"(1) True ge have run: "partitionLoop st1 arr pv high i (j + 1) = (i', arr', st')"
        by (simp add: partitionLoop.simps[of st] Let_def st1_def)
      have inv: "\<forall>k. i < k \<and> k < j + 1 \<longrightarrow> \<not> js_lt (arr ! nat k) pv"
      proof (intro allI impI)
        fix k assume "i < k \<and> k < j + 1"
        then have "k < j \<or> k = j" by auto
        then show "\<not> js_lt (arr ! nat k) pv"
          using ge "1.prems"(8) \<open>i < k \<and> k < j + 1\<close> by auto
      qed
      have "i < j + 1" "j + 1 \<le> high" using "1.prems"(4) True by simp_all
      from "1.IH"(2)[OF True st1_def ge run "1.prems"(2,3) this "1.prems"(6,7) inv "1.prems"(9)]
      show ?thesis .
    next
      case lt: True
      define arr1 where "arr1 = swap arr (i + 1) j"
      define st2 where "st2 = saveStep arr1 \<lparr>pivot = Some high, compare = None, sorted_flag = None\<rparr> st1"
      from "1.prems"(1) True lt
      have run: "partitionLoop st2 arr1 pv high (i + 1) (j + 1) = (i', arr', st')"
        by (simp add: partitionLoop.simps[of st] Let_def st1_def st2_def arr1_def)
      have rng: "0 \<le> i + 1" "i + 1 < int (length arr)" "0 \<le> j" "j < int (length arr)"
        using "1.prems"(2-6) True by auto
      have nth1: "\<And>k. 0 \<le> k \<Longrightarrow> arr1 ! nat k =
          (if k = j then arr ! nat (i + 1) else if k = i + 1 then arr ! nat j else arr ! nat k)"
        unfolding arr1_def using swap_nth[OF rng] by simp
      have len1: "high < int (length arr1)" using "1.prems"(6) by (simp add: arr1_def)
      have m1: "mset arr1 = mset arr" unfolding arr1_def by (rule mset_swap_in_range[OF rng])
      have invA: "\<forall>k. low \<le> k \<and> k \<le> i + 1 \<longrightarrow> js_lt (arr1 ! nat k) pv"
      proof (intro allI impI)
        fix k assume k: "low \<le> k \<and> k \<le> i + 1"
        then have k0: "0 \<le> k" using "1.prems"(2) by simp
        show "js_lt (arr1 ! nat k) pv"
        proof (cases "k = i + 1")
          case True
          then show ?thesis using nth1[OF k0] lt by simp
        next
          case False
          then have "k \<le> i" "k \<noteq> j" using k "1.prems"(4) by auto
          then show ?thesis using nth1[OF k0] False k "1.prems"(7) by simp
        qed
      qed
      have invB: "\<forall>k. i + 1 < k \<and> k < j + 1 \<longrightarrow> \<not> js_lt (arr1 ! nat k) pv"
      proof (intro allI impI)
        fix k assume k: "i + 1 < k \<and> k < j + 1"
        then have k0: "0 \<le> k" using rng by simp
        show "\<not> js_lt (arr1 ! nat k) pv"
        proof (cases "k = j")
          case True
          then have "i < i + 1 \<and> i + 1 < j" using k by simp
          then have "\<not> js_lt (arr ! nat (i + 1)) pv" using "1.prems"(8) by blast
          then show ?thesis using nth1[OF k0] True by simp
        next
          case False
          then have "i < k \<and> k < j" using k by simp
          then have "\<not> js_lt (arr ! nat k) pv" using "1.prems"(8) by blast
          then show ?thesis using nth1[OF k0] False k by simp
        qed
      qed
      have invP: "\<forall>k. low \<le> k \<and> k \<le> high \<longrightarrow> P (arr1 ! nat k)"
      proof (intro allI impI)
        fix k assume k: "low \<le> k \<and> k \<le> high"
        then have k0: "0 \<le> k" using "1.prems"(2) by simp
        have a: "low \<le> i + 1 \<and> i + 1 \<le> high" "low \<le> j \<and> j \<le> high"
          using "1.prems"(3,4,5) by auto
        show "P (arr1 ! nat k)"
          using nth1[OF k0] "1.prems"(9) a k by (auto split: if_splits)
      qed
      have IH: "mset arr' = mset arr1
        \<and> (\<forall>k. low \<le> k \<and> k \<le> i' \<longrightarrow> js_lt (arr' ! nat k) pv)
        \<and> (\<forall>k. i' < k \<and> k < high \<longrightarrow> \<not> js_lt (arr' ! nat k) pv)
        \<and> (\<forall>k. 0 \<le> k \<and> (k \<le> i + 1 \<or> high \<le> k) \<longrightarrow> arr' ! nat k = arr1 ! nat k)
        \<and> (\<forall>k. low \<le> k \<and> k \<le> high \<longrightarrow> P (arr' ! nat k))"
      proof -
        have b: "low - 1 \<le> i + 1" "i + 1 < j + 1" "j + 1 \<le> high"
          using "1.prems"(3,4) True by simp_all
        have a1: "arr1 = swap arr (i + 1) j" by (simp add: arr1_def)
        show ?thesis
          by (rule "1.IH"(1)[OF True st1_def lt refl a1 st2_def run "1.prems"(2) b len1 invA invB invP])
      qed
      have frame: "\<forall>k. 0 \<le> k \<and> (k \<le> i \<or> high \<le> k) \<longrightarrow> arr' ! nat k = arr ! nat k"
      proof (intro allI impI)
        fix k assume k: "0 \<le> k \<and> (k \<le> i \<or> high \<le> k)"
        then have "arr' ! nat k = arr1 ! nat k" using IH by auto
        moreover have "k \<noteq> j" "k \<noteq> i + 1" using k "1.prems"(4) True by auto
        ultimately show "arr' ! nat k = arr ! nat k" using nth1[of k] k by simp
      qed
      from IH m1 frame show ?thesis by simp
    qed
  qed
qed

lemma randomizedPartition_unfold:
  assumes "randomizedPartition rnd st arr low high = (p, arr', st')"
  defines "ri \<equiv> randomIndexOf (rnd (randomCalls st)) low high"
  defines "arr1 \<equiv> swap arr ri high"
  defines "st1 \<equiv> saveStep arr \<lparr>pivot = Some ri, compare = None, sorted_flag = None\<rparr>
                    (st\<lparr>randomCalls := randomCalls st + 1\<rparr>)"
  shows "\<exists>i arr2 st2. partitionLoop st1 arr1 (arr1 ! nat high) high (low - 1) low = (i, arr2, st2)
           \<and> p = i + 1 \<and> arr' = swap arr2 (i + 1) high \<and> st' = saveStep arr' no_highlight st2"
proof -
  obtain i arr2 st2 where
    L: "partitionLoop st1 arr1 (arr1 ! nat high) high (low - 1) low = (i, arr2, st2)"
    by (metis prod_cases3)
  from assms(1) L have "p = i + 1 \<and> arr' = swap arr2 (i + 1) high \<and> st' = saveStep arr' no_highlight st2"
    by (auto simp add: randomizedPartition_def Math_random_def Let_def ri_def arr1_def st1_def)
  with L show ?thesis by blast
qed

lemma randomizedPartition_length:
  assumes "randomizedPartition rnd st arr low high = (p, arr', st')"
  shows "length arr' = length arr"
proof -
  from randomizedPartition_unfold[OF assms] obtain i arr2 st2 where
    L: "partitionLoop (saveStep arr \<lparr>pivot = Some (randomIndexOf (rnd (randomCalls st)) low high), compare = None, sorted_flag = None\<rparr>
                    (st\<lparr>randomCalls := randomCalls st + 1\<rparr>)) (swap arr (randomIndexOf (rnd (randomCalls st)) low high) high)
           (swap arr (randomIndexOf (rnd (randomCalls st)) low high) high ! nat high) high (low - 1) low = (i, arr2, st2)"
    and a: "arr' = swap arr2 (i + 1) high" by blast
  from partitionLoop_length[OF L] a show ?thesis by simp
qed

lemma randomizedPartition_post:
  assumes run: "randomizedPartition rnd st arr low high = (p, arr', st')"
    and low0: "0 \<le> low" and lh: "low < high" and hlen: "high < int (length arr)"
    and ri: "low \<le> randomIndexOf (rnd (randomCalls st)) low high"
            "randomIndexOf (rnd (randomCalls st)) low high \<le> high"
    and P: "\<forall>k. low \<le> k \<and> k \<le> high \<longrightarrow> P (arr ! nat k)"
  shows "mset arr' = mset arr
    \<and> low \<le> p \<and> p \<le> high
    \<and> arr' ! nat p = arr ! nat (randomIndexOf (rnd (randomCalls st)) low high)
    \<and> (\<forall>k. low \<le> k \<and> k < p \<longrightarrow> js_lt (arr' ! nat k) (arr' ! nat p))
    \<and> (\<forall>k. p < k \<and> k \<le> high \<longrightarrow> \<not> js_lt (arr' ! nat k) (arr' ! nat p))
    \<and> (\<forall>k. 0 \<le> k \<and> (k < low \<or> high < k) \<longrightarrow> arr' ! nat k = arr ! nat k)
    \<and> (\<forall>k. low \<le> k \<and> k \<le> high \<longrightarrow> P (arr' ! nat k))"
proof -
  define r where "r = randomIndexOf (rnd (randomCalls st)) low high"
  define arr1 where "arr1 = swap arr r high"
  define pv where "pv = arr1 ! nat high"
  from randomizedPartition_unfold[OF run] obtain i arr2 st2 where
    L: "partitionLoop (saveStep arr \<lparr>pivot = Some r, compare = None, sorted_flag = None\<rparr>
           (st\<lparr>randomCalls := randomCalls st + 1\<rparr>)) arr1 pv high (low - 1) low = (i, arr2, st2)"
    and p: "p = i + 1" and a: "arr' = swap arr2 (i + 1) high"
    unfolding r_def arr1_def pv_def by blast
  have rr: "0 \<le> r" "r < int (length arr)" "0 \<le> high" "high < int (length arr)"
    using ri low0 lh hlen by (auto simp: r_def)
  have nth1: "\<And>k. 0 \<le> k \<Longrightarrow> arr1 ! nat k =
      (if k = high then arr ! nat r else if k = r then arr ! nat high else arr ! nat k)"
    unfolding arr1_def using swap_nth[OF rr] by simp
  have m1: "mset arr1 = mset arr" unfolding arr1_def by (rule mset_swap_in_range[OF rr])
  have len1: "high < int (length arr1)" using hlen by (simp add: arr1_def)
  have P1: "\<forall>k. low \<le> k \<and> k \<le> high \<longrightarrow> P (arr1 ! nat k)"
  proof (intro allI impI)
    fix k assume k: "low \<le> k \<and> k \<le> high"
    then have k0: "0 \<le> k" using low0 by simp
    have "low \<le> r \<and> r \<le> high" "low \<le> high \<and> high \<le> high" using ri lh by (auto simp: r_def)
    then show "P (arr1 ! nat k)" using nth1[OF k0] P k by (auto split: if_splits)
  qed
  have post: "mset arr2 = mset arr1
    \<and> (\<forall>k. low \<le> k \<and> k \<le> i \<longrightarrow> js_lt (arr2 ! nat k) pv)
    \<and> (\<forall>k. i < k \<and> k < high \<longrightarrow> \<not> js_lt (arr2 ! nat k) pv)
    \<and> (\<forall>k. 0 \<le> k \<and> (k \<le> low - 1 \<or> high \<le> k) \<longrightarrow> arr2 ! nat k = arr1 ! nat k)
    \<and> (\<forall>k. low \<le> k \<and> k \<le> high \<longrightarrow> P (arr2 ! nat k))"
    by (rule partitionLoop_post[OF L low0 _ _ _ len1 _ _ P1]) (use lh in auto)
  have ib: "low - 1 \<le> i" "i - (low - 1) \<le> high - low"
    using partitionLoop_i_bounds[OF L] lh by auto
  have len2: "length arr2 = length arr" using partitionLoop_length[OF L] by (simp add: arr1_def)
  have r2: "0 \<le> i + 1" "i + 1 < int (length arr2)" "0 \<le> high" "high < int (length arr2)"
    using ib low0 lh hlen len2 by auto
  have nth3: "\<And>k. 0 \<le> k \<Longrightarrow> arr' ! nat k =
      (if k = high then arr2 ! nat (i + 1) else if k = i + 1 then arr2 ! nat high else arr2 ! nat k)"
    unfolding a using swap_nth[OF r2] by simp
  have pv2: "arr2 ! nat high = pv" using post rr(3) nth1[OF rr(3)] by (simp add: pv_def)
  have pvp: "arr' ! nat p = pv" using nth3[OF r2(1)] pv2 p by simp
  have c1: "mset arr' = mset arr" using post m1 mset_swap_in_range[OF r2] a by simp
  have c2: "low \<le> p \<and> p \<le> high" using ib p by simp
  have c3: "arr' ! nat p = arr ! nat r" using pvp nth1[OF rr(3)] by (simp add: pv_def)
  have c4: "\<forall>k. low \<le> k \<and> k < p \<longrightarrow> js_lt (arr' ! nat k) (arr' ! nat p)"
  proof (intro allI impI)
    fix k assume k: "low \<le> k \<and> k < p"
    then have "0 \<le> k" "k \<noteq> high" "k \<noteq> i + 1" "low \<le> k \<and> k \<le> i" using low0 p c2 by auto
    then show "js_lt (arr' ! nat k) (arr' ! nat p)" using nth3[of k] post pvp by simp
  qed
  have c5: "\<forall>k. p < k \<and> k \<le> high \<longrightarrow> \<not> js_lt (arr' ! nat k) (arr' ! nat p)"
  proof (intro allI impI)
    fix k assume k: "p < k \<and> k \<le> high"
    then have k0: "0 \<le> k" "k \<noteq> i + 1" using r2(1) p by auto
    show "\<not> js_lt (arr' ! nat k) (arr' ! nat p)"
    proof (cases "k = high")
      case True
      then have "i < i + 1 \<and> i + 1 < high" using k p by simp
      then have "\<not> js_lt (arr2 ! nat (i + 1)) pv" using post by blast
      then show ?thesis using nth3[OF k0(1)] True pvp by simp
    next
      case False
      then have "i < k \<and> k < high" using k p by simp
      then have "\<not> js_lt (arr2 ! nat k) pv" using post by blast
      then show ?thesis using nth3[OF k0(1)] False k0 pvp by simp
    qed
  qed
  have c6: "\<forall>k. 0 \<le> k \<and> (k < low \<or> high < k) \<longrightarrow> arr' ! nat k = arr ! nat k"
  proof (intro allI impI)
    fix k assume k: "0 \<le> k \<and> (k < low \<or> high < k)"
    then have ne: "k \<noteq> high" "k \<noteq> i + 1" "k \<noteq> r" using ib lh ri by (auto simp: r_def)
    have "arr2 ! nat k = arr1 ! nat k" using post k by auto
    then show "arr' ! nat k = arr ! nat k" using nth3[of k] nth1[of k] ne k by simp
  qed
  have c7: "\<forall>k. low \<le> k \<and> k \<le> high \<longrightarrow> P (arr' ! nat k)"
  proof (intro allI impI)
    fix k assume k: "low \<le> k \<and> k \<le> high"
    then have k0: "0 \<le> k" using low0 by simp
    have "low \<le> i + 1 \<and> i + 1 \<le> high" "low \<le> high \<and> high \<le> high" using c2 p lh by auto
    then show "P (arr' ! nat k)" using nth3[OF k0] post k by (auto split: if_splits)
  qed
  from c1 c2 c3 c4 c5 c6 c7 show ?thesis unfolding r_def by blast
qed

lemma randomizedQuickSort_base:
  "\<not> low < high \<Longrightarrow> randomizedQuickSort rnd st arr low high = (arr, st)"
  by (simp add: randomizedQuickSort.simps)

lemma randomizedQuickSort_step:
  "low < high \<Longrightarrow> randomizedPartition rnd st arr low high = (p, arr1, st1) \<Longrightarrow>
   randomizedQuickSort rnd st1 arr1 low (p - 1) = (arr2, st2) \<Longrightarrow>
   randomizedQuickSort rnd st arr low high = randomizedQuickSort rnd st2 arr2 (p + 1) high"
  by (simp add: randomizedQuickSort.simps[of rnd st arr low high])

lemma randomizedQuickSort_induct [case_names base step]:
  assumes base: "\<And>st arr low high. \<not> low < high \<Longrightarrow> Q st arr low high"
    and step: "\<And>st arr low high p arr1 st1 arr2 st2.
        low < high \<Longrightarrow> randomizedPartition rnd st arr low high = (p, arr1, st1) \<Longrightarrow>
        randomizedQuickSort rnd st1 arr1 low (p - 1) = (arr2, st2) \<Longrightarrow>
        Q st1 arr1 low (p - 1) \<Longrightarrow> Q st2 arr2 (p + 1) high \<Longrightarrow> Q st arr low high"
  shows "Q st arr low high"
proof -
  have "r = rnd \<Longrightarrow> Q st arr low high" for r
  proof (induction r st arr low high rule: randomizedQuickSort.induct)
    case (1 r st arr low high)
    show ?case
    proof (cases "low < high")
      case False
      then show ?thesis by (rule base)
    next
      case True
      obtain p arr1 st1 where part: "randomizedPartition r st arr low high = (p, arr1, st1)"
        by (metis prod_cases3)
      obtain arr2 st2 where left: "randomizedQuickSort r st1 arr1 low (p - 1) = (arr2, st2)"
        by (metis surj_pair)
      have q1: "Q st1 arr1 low (p - 1)"
        by (rule "1.IH"(1)[OF True refl part[symmetric] refl "1.prems"])
      have q2: "Q st2 arr2 (p + 1) high"
        by (rule "1.IH"(2)[OF True refl part[symmetric] refl refl left[symmetric] "1.prems"])
      from step[OF True part[unfolded "1.prems"] left[unfolded "1.prems"] q1 q2] show ?thesis .
    qed
  qed
  then show ?thesis by simp
qed

lemma randomizedQuickSort_post:
  assumes "randomizedQuickSort rnd st arr low high = (arr', st')"
    and "unit_draws rnd" "0 \<le> low" "high < int (length arr)"
    and "\<forall>x\<in>set arr. \<not> isNaN x"
    and "\<forall>k. low \<le> k \<and> k \<le> high \<longrightarrow> P (arr ! nat k)"
  shows "length arr' = length arr \<and> mset arr' = mset arr
    \<and> (\<forall>k. 0 \<le> k \<and> (k < low \<or> high < k) \<longrightarrow> arr' ! nat k = arr ! nat k)
    \<and> (\<forall>k. low \<le> k \<and> k \<le> high \<longrightarrow> P (arr' ! nat k))
    \<and> (\<forall>a b. low \<le> a \<and> a \<le> b \<and> b \<le> high \<longrightarrow> js_le (arr' ! nat a) (arr' ! nat b))"
  using assms
proof (induction st arr low high arbitrary: arr' st' P rule: randomizedQuickSort_induct[where rnd = rnd])
  case (base st arr low high)
  then have eq: "arr' = arr" by (simp add: randomizedQuickSort_base)
  have "\<forall>a b. low \<le> a \<and> a \<le> b \<and> b \<le> high \<longrightarrow> js_le (arr ! nat a) (arr ! nat b)"
  proof (intro allI impI)
    fix a b assume ab: "low \<le> a \<and> a \<le> b \<and> b \<le> high"
    with base(1) have "a = b" "nat a < length arr" using base.prems(3,4) by auto
    then show "js_le (arr ! nat a) (arr ! nat b)" using base.prems(5) by (simp add: js_le_refl)
  qed
  with eq base.prems(6) show ?case by simp
next
  case (step st arr low high p arr1 st1 arr2 st2)
  note lh = step.hyps(1) and part = step.hyps(2) and left = step.hyps(3)
  from step.prems(1) have right: "randomizedQuickSort rnd st2 arr2 (p + 1) high = (arr', st')"
    using randomizedQuickSort_step[OF lh part left] by simp
  define r where "r = randomIndexOf (rnd (randomCalls st)) low high"
  have ri: "low \<le> r" "r \<le> high"
    using randomIndex_range[of "rnd (randomCalls st)" low high] step.prems(2) lh
    by (auto simp: unit_draws_def r_def)
  note pp = randomizedPartition_post[OF part step.prems(3) lh step.prems(4) ri[unfolded r_def]]
  have len1: "length arr1 = length arr" by (rule randomizedPartition_length[OF part])
  have pb: "low \<le> p" "p \<le> high" using pp[of "\<lambda>_. True"] by auto
  have m1: "mset arr1 = mset arr" using pp[of "\<lambda>_. True"] by auto
  have nan1: "\<forall>x\<in>set arr1. \<not> isNaN x" using mset_eq_setD[OF m1] step.prems(5) by simp
  have hl1: "p - 1 < int (length arr1)" using pb step.prems(4) len1 by simp
  define pv where "pv = arr1 ! nat p"
  have lt1: "\<forall>k. low \<le> k \<and> k \<le> p - 1 \<longrightarrow> js_lt (arr1 ! nat k) pv"
    using pp[of "\<lambda>_. True"] by (auto simp: pv_def)
  have ge1: "\<forall>k. p + 1 \<le> k \<and> k \<le> high \<longrightarrow> \<not> js_lt (arr1 ! nat k) pv"
    using pp[of "\<lambda>_. True"] by (auto simp: pv_def)
  have P1: "\<forall>k. low \<le> k \<and> k \<le> high \<longrightarrow> P (arr1 ! nat k)"
    using pp[of P] step.prems(6) by blast
  have fr1: "\<forall>k. 0 \<le> k \<and> (k < low \<or> high < k) \<longrightarrow> arr1 ! nat k = arr ! nat k"
    using pp[of "\<lambda>_. True"] by auto
  note L = step.IH(1)[OF left step.prems(2,3) hl1 nan1]
  have len2: "length arr2 = length arr1" using L[of "\<lambda>_. True"] by simp
  have m2: "mset arr2 = mset arr1" using L[of "\<lambda>_. True"] by simp
  have fr2: "\<forall>k. 0 \<le> k \<and> (k < low \<or> p - 1 < k) \<longrightarrow> arr2 ! nat k = arr1 ! nat k"
    using L[of "\<lambda>_. True"] by simp
  have lt2: "\<forall>k. low \<le> k \<and> k \<le> p - 1 \<longrightarrow> js_lt (arr2 ! nat k) pv"
    using L[of "\<lambda>x. js_lt x pv"] lt1 by blast
  have so2: "\<forall>a b. low \<le> a \<and> a \<le> b \<and> b \<le> p - 1 \<longrightarrow> js_le (arr2 ! nat a) (arr2 ! nat b)"
    using L[of "\<lambda>_. True"] by simp
  have nan2: "\<forall>x\<in>set arr2. \<not> isNaN x" using mset_eq_setD[OF m2] nan1 by simp
  have hl2: "high < int (length arr2)" using step.prems(4) len1 len2 by simp
  have p0: "0 \<le> p + 1" using pb step.prems(3) by simp
  note R = step.IH(2)[OF right step.prems(2) p0 hl2 nan2]
  have len3: "length arr' = length arr2" using R[of "\<lambda>_. True"] by simp
  have m3: "mset arr' = mset arr2" using R[of "\<lambda>_. True"] by simp
  have fr3: "\<forall>k. 0 \<le> k \<and> (k < p + 1 \<or> high < k) \<longrightarrow> arr' ! nat k = arr2 ! nat k"
    using R[of "\<lambda>_. True"] by simp
  have ge2: "\<forall>k. p + 1 \<le> k \<and> k \<le> high \<longrightarrow> \<not> js_lt (arr2 ! nat k) pv"
  proof (intro allI impI)
    fix k assume k: "p + 1 \<le> k \<and> k \<le> high"
    then have "0 \<le> k \<and> (k < low \<or> p - 1 < k)" using pb step.prems(3) by auto
    then have "arr2 ! nat k = arr1 ! nat k" using fr2 by blast
    then show "\<not> js_lt (arr2 ! nat k) pv" using ge1 k by simp
  qed
  have ge3: "\<forall>k. p + 1 \<le> k \<and> k \<le> high \<longrightarrow> \<not> js_lt (arr' ! nat k) pv"
    using R[of "\<lambda>x. \<not> js_lt x pv"] ge2 by blast
  have so3: "\<forall>a b. p + 1 \<le> a \<and> a \<le> b \<and> b \<le> high \<longrightarrow> js_le (arr' ! nat a) (arr' ! nat b)"
    using R[of "\<lambda>_. True"] by simp
  have keep: "\<And>k. 0 \<le> k \<Longrightarrow> k \<le> p \<Longrightarrow> arr' ! nat k = arr2 ! nat k"
    using fr3 by simp
  have pv3: "arr' ! nat p = pv"
    using keep[of p] fr2 pb step.prems(3) by (simp add: pv_def)
  have nan3: "\<forall>x\<in>set arr'. \<not> isNaN x" using mset_eq_setD[OF m3] nan2 by simp
  have nn: "\<And>k. 0 \<le> k \<Longrightarrow> k \<le> high \<Longrightarrow> \<not> isNaN (arr' ! nat k)"
  proof -
    fix k :: int assume "0 \<le> k" "k \<le> high"
    then have "nat k < length arr'" using hl2 len3 by simp
    then show "\<not> isNaN (arr' ! nat k)" using nan3 nth_mem by blast
  qed
  have c_sorted: "\<forall>a b. low \<le> a \<and> a \<le> b \<and> b \<le> high \<longrightarrow> js_le (arr' ! nat a) (arr' ! nat b)"
  proof (intro allI impI)
    fix a b assume ab: "low \<le> a \<and> a \<le> b \<and> b \<le> high"
    then have a0: "0 \<le> a" "0 \<le> b" using step.prems(3) by auto
    have nna: "\<not> isNaN (arr' ! nat a)" "\<not> isNaN (arr' ! nat b)" "\<not> isNaN pv"
      using nn[of a] nn[of b] nn[of p] ab a0 pb pv3 step.prems(3) by auto
    consider (ll) "b < p" | (lp) "a < p" "b = p" | (lr) "a < p" "p < b"
      | (pp) "a = p" "b = p" | (pr) "a = p" "p < b" | (rr) "p < a"
      using ab by fastforce
    then show "js_le (arr' ! nat a) (arr' ! nat b)"
    proof cases
      case ll
      then have "arr' ! nat a = arr2 ! nat a" "arr' ! nat b = arr2 ! nat b"
        using keep[of a] keep[of b] ab a0 by auto
      then show ?thesis using so2 ab ll by auto
    next
      case lp
      then have "arr' ! nat a = arr2 ! nat a" using keep[of a] a0 by auto
      then have "js_lt (arr' ! nat a) pv" using lt2 ab lp by auto
      then show ?thesis using lp pv3 by (simp add: js_lt_imp_le)
    next
      case lr
      then have "arr' ! nat a = arr2 ! nat a" using keep[of a] a0 by auto
      then have x: "js_lt (arr' ! nat a) pv" using lt2 ab lr by auto
      have "\<not> js_lt (arr' ! nat b) pv" using ge3 ab lr by auto
      then have "js_le pv (arr' ! nat b)" using nna by (simp add: not_js_lt_imp_le)
      with x show ?thesis by (rule js_lt_le_trans)
    next
      case pp
      then show ?thesis using nna by (simp add: js_le_refl)
    next
      case pr
      have "\<not> js_lt (arr' ! nat b) pv" using ge3 ab pr by auto
      then show ?thesis using nna pr pv3 by (simp add: not_js_lt_imp_le)
    next
      case rr
      then show ?thesis using so3 ab by auto
    qed
  qed
  have c_frame: "\<forall>k. 0 \<le> k \<and> (k < low \<or> high < k) \<longrightarrow> arr' ! nat k = arr ! nat k"
  proof (intro allI impI)
    fix k assume k: "0 \<le> k \<and> (k < low \<or> high < k)"
    then have "arr' ! nat k = arr2 ! nat k" using fr3 pb by auto
    moreover have "arr2 ! nat k = arr1 ! nat k" using fr2 k pb by auto
    moreover have "arr1 ! nat k = arr ! nat k" using fr1 k by auto
    ultimately show "arr' ! nat k = arr ! nat k" by simp
  qed
  have c_P: "\<forall>k. low \<le> k \<and> k \<le> high \<longrightarrow> P (arr' ! nat k)"
  proof (intro allI impI)
    fix k assume k: "low \<le> k \<and> k \<le> high"
    have P2a: "\<forall>k. low \<le> k \<and> k \<le> p - 1 \<longrightarrow> P (arr2 ! nat k)"
      using L[of P] P1 pb by auto
    have P2: "\<forall>k. low \<le> k \<and> k \<le> high \<longrightarrow> P (arr2 ! nat k)"
    proof (intro allI impI)
      fix k assume k: "low \<le> k \<and> k \<le> high"
      show "P (arr2 ! nat k)"
      proof (cases "k \<le> p - 1")
        case True
        then show ?thesis using P2a k by simp
      next
        case False
        then have "arr2 ! nat k = arr1 ! nat k" using fr2 k step.prems(3) by auto
        then show ?thesis using P1 k by simp
      qed
    qed
    show "P (arr' ! nat k)"
    proof (cases "p + 1 \<le> k")
      case True
      then show ?thesis using R[of P] P2 pb k by auto
    next
      case False
      then have "arr' ! nat k = arr2 ! nat k" using keep[of k] k step.prems(3) by auto
      then show ?thesis using P2 k by simp
    qed
  qed
  from len1 len2 len3 m1 m2 m3 c_frame c_P c_sorted show ?case by simp
qed

section \<open>What a partition and the recursion append to the steps\<close>

lemma scanHighlights_done: "\<not> j < high \<Longrightarrow> scanHighlights arr pv j high = []"
  by (simp add: scanHighlights_def)

lemma scanHighlights_unfold:
  "j < high \<Longrightarrow> scanHighlights arr pv j high =
     \<lparr>pivot = Some high, compare = Some j, sorted_flag = None\<rparr> #
     (if js_lt (arr ! nat j) pv then [\<lparr>pivot = Some high, compare = None, sorted_flag = None\<rparr>] else [])
     @ scanHighlights arr pv (j + 1) high"
  by (simp add: scanHighlights_def upto_rec1[of j "high - 1"])

lemma scanHighlights_cong:
  "(\<And>k. j \<le> k \<Longrightarrow> k < high \<Longrightarrow> arr1 ! nat k = arr ! nat k) \<Longrightarrow>
   scanHighlights arr1 pv j high = scanHighlights arr pv j high"
  unfolding scanHighlights_def by (intro arg_cong[where f = concat] map_cong) auto

lemma partitionLoop_frame:
  "partitionLoop st arr pv high i j = (i', arr', st') \<Longrightarrow>
   \<exists>new. \<forall>s. partitionLoop s arr pv high i j = (i', arr', s\<lparr>steps := steps s @ new\<rparr>)"
proof (induction st arr pv high i j arbitrary: i' arr' st' rule: partitionLoop.induct)
  case (1 st arr pv high i j)
  show ?case
  proof (cases "j < high")
    case False
    with "1.prems" have "\<forall>s. partitionLoop s arr pv high i j = (i', arr', s\<lparr>steps := steps s @ []\<rparr>)"
      by (simp add: partitionLoop.simps)
    then show ?thesis by blast
  next
    case True
    let ?c = "\<lparr>array = arr, highlight = \<lparr>pivot = Some high, compare = Some j, sorted_flag = None\<rparr>\<rparr>"
    define st1 where "st1 = saveStep arr \<lparr>pivot = Some high, compare = Some j, sorted_flag = None\<rparr> st"
    show ?thesis
    proof (cases "js_lt (arr ! nat j) pv")
      case ge: False
      from "1.prems" True ge have run: "partitionLoop st1 arr pv high i (j + 1) = (i', arr', st')"
        by (simp add: partitionLoop.simps[of st] Let_def st1_def)
      from "1.IH"(2)[OF True st1_def ge run] obtain new where
        n: "\<And>s. partitionLoop s arr pv high i (j + 1) = (i', arr', s\<lparr>steps := steps s @ new\<rparr>)"
        by blast
      have "\<forall>s. partitionLoop s arr pv high i j = (i', arr', s\<lparr>steps := steps s @ (?c # new)\<rparr>)"
        using True ge n by (simp add: partitionLoop.simps[of _ arr pv high i j] Let_def saveStep_def)
      then show ?thesis by blast
    next
      case lt: True
      define arr1 where "arr1 = swap arr (i + 1) j"
      define st2 where "st2 = saveStep arr1 \<lparr>pivot = Some high, compare = None, sorted_flag = None\<rparr> st1"
      let ?w = "\<lparr>array = arr1, highlight = \<lparr>pivot = Some high, compare = None, sorted_flag = None\<rparr>\<rparr>"
      from "1.prems" True lt
      have run: "partitionLoop st2 arr1 pv high (i + 1) (j + 1) = (i', arr', st')"
        by (simp add: partitionLoop.simps[of st] Let_def st1_def st2_def arr1_def)
      have a1: "arr1 = swap arr (i + 1) j" by (simp add: arr1_def)
      from "1.IH"(1)[OF True st1_def lt refl a1 st2_def run] obtain new where
        n: "\<And>s. partitionLoop s arr1 pv high (i + 1) (j + 1) = (i', arr', s\<lparr>steps := steps s @ new\<rparr>)"
        by blast
      have "\<forall>s. partitionLoop s arr pv high i j = (i', arr', s\<lparr>steps := steps s @ (?c # ?w # new)\<rparr>)"
        using True lt n
        by (simp add: partitionLoop.simps[of _ arr pv high i j] Let_def saveStep_def arr1_def)
      then show ?thesis by blast
    qed
  qed
qed

lemma partitionLoop_trace:
  assumes "partitionLoop st arr pv high i j = (i', arr', st')" and "0 \<le> i + 1" "i < j"
  shows "\<exists>new. steps st' = steps st @ new \<and> map highlight new = scanHighlights arr pv j high
           \<and> (j \<le> high \<and> high < int (length arr) \<longrightarrow> (\<forall>x\<in>set new. mset (array x) = mset arr))"
  using assms
proof (induction st arr pv high i j arbitrary: i' arr' st' rule: partitionLoop.induct)
  case (1 st arr pv high i j)
  show ?case
  proof (cases "j < high")
    case False
    with "1.prems" have "steps st' = steps st @ []" by (simp add: partitionLoop.simps)
    then show ?thesis using False by (simp add: scanHighlights_done)
  next
    case True
    let ?c = "\<lparr>array = arr, highlight = \<lparr>pivot = Some high, compare = Some j, sorted_flag = None\<rparr>\<rparr>"
    define st1 where "st1 = saveStep arr \<lparr>pivot = Some high, compare = Some j, sorted_flag = None\<rparr> st"
    have s1: "steps st1 = steps st @ [?c]" by (simp add: st1_def saveStep_def)
    show ?thesis
    proof (cases "js_lt (arr ! nat j) pv")
      case ge: False
      from "1.prems" True ge have run: "partitionLoop st1 arr pv high i (j + 1) = (i', arr', st')"
        by (simp add: partitionLoop.simps[of st] Let_def st1_def)
      have b: "i < j + 1" using "1.prems"(3) by simp
      from "1.IH"(2)[OF True st1_def ge run "1.prems"(2) b] obtain new where
        n: "steps st' = steps st1 @ new" "map highlight new = scanHighlights arr pv (j + 1) high"
           "j + 1 \<le> high \<and> high < int (length arr) \<longrightarrow> (\<forall>x\<in>set new. mset (array x) = mset arr)"
        by blast
      have "steps st' = steps st @ (?c # new)" using n(1) s1 by simp
      moreover have "map highlight (?c # new) = scanHighlights arr pv j high"
        using n(2) ge by (simp add: scanHighlights_unfold[OF True])
      moreover have "j \<le> high \<and> high < int (length arr) \<longrightarrow> (\<forall>x\<in>set (?c # new). mset (array x) = mset arr)"
        using n(3) True by simp
      ultimately show ?thesis by blast
    next
      case lt: True
      define arr1 where "arr1 = swap arr (i + 1) j"
      define st2 where "st2 = saveStep arr1 \<lparr>pivot = Some high, compare = None, sorted_flag = None\<rparr> st1"
      let ?w = "\<lparr>array = arr1, highlight = \<lparr>pivot = Some high, compare = None, sorted_flag = None\<rparr>\<rparr>"
      have s2: "steps st2 = steps st @ [?c, ?w]" by (simp add: st2_def saveStep_def s1)
      from "1.prems" True lt
      have run: "partitionLoop st2 arr1 pv high (i + 1) (j + 1) = (i', arr', st')"
        by (simp add: partitionLoop.simps[of st] Let_def st1_def st2_def arr1_def)
      have a1: "arr1 = swap arr (i + 1) j" by (simp add: arr1_def)
      have b: "0 \<le> i + 1 + 1" "i + 1 < j + 1" using "1.prems"(2,3) by simp_all
      from "1.IH"(1)[OF True st1_def lt refl a1 st2_def run b] obtain new where
        n: "steps st' = steps st2 @ new" "map highlight new = scanHighlights arr1 pv (j + 1) high"
           "j + 1 \<le> high \<and> high < int (length arr1) \<longrightarrow> (\<forall>x\<in>set new. mset (array x) = mset arr1)"
        by blast
      have same: "scanHighlights arr1 pv (j + 1) high = scanHighlights arr pv (j + 1) high"
      proof (rule scanHighlights_cong)
        fix k assume "j + 1 \<le> k" "k < high"
        then show "arr1 ! nat k = arr ! nat k"
          unfolding arr1_def using "1.prems"(2,3) by (intro swap_nth_other) auto
      qed
      have m1: "high < int (length arr) \<Longrightarrow> mset arr1 = mset arr"
        unfolding arr1_def using "1.prems"(2,3) True by (intro mset_swap_in_range) auto
      have "steps st' = steps st @ (?c # ?w # new)" using n(1) s2 by simp
      moreover have "map highlight (?c # ?w # new) = scanHighlights arr pv j high"
        using n(2) lt same by (simp add: scanHighlights_unfold[OF True])
      moreover have "j \<le> high \<and> high < int (length arr) \<longrightarrow>
          (\<forall>x\<in>set (?c # ?w # new). mset (array x) = mset arr)"
        using n(3) True m1 by (simp add: arr1_def)
      ultimately show ?thesis by blast
    qed
  qed
qed

lemma partitionLoop_scanSteps:
  assumes "partitionLoop st arr pv high i j = (i', arr', st')"
  shows "steps st' = steps st @ scanSteps pv high i arr [j..high - 1]
       \<and> i' = i + int (length (filter (\<lambda>s. compare (highlight s) = None)
                                  (scanSteps pv high i arr [j..high - 1])))
       \<and> (j < high \<longrightarrow> array (last (scanSteps pv high i arr [j..high - 1])) = arr')"
  using assms
proof (induction st arr pv high i j arbitrary: i' arr' st' rule: partitionLoop.induct)
  case (1 st arr pv high i j)
  show ?case
  proof (cases "j < high")
    case False
    then have "[j..high - 1] = []" by simp
    with "1.prems" False show ?thesis by (simp add: partitionLoop.simps)
  next
    case True
    let ?c = "\<lparr>array = arr, highlight = \<lparr>pivot = Some high, compare = Some j, sorted_flag = None\<rparr>\<rparr>"
    define st1 where "st1 = saveStep arr \<lparr>pivot = Some high, compare = Some j, sorted_flag = None\<rparr> st"
    have up: "[j..high - 1] = j # [j + 1..high - 1]" using True by (simp add: upto_rec1)
    show ?thesis
    proof (cases "js_lt (arr ! nat j) pv")
      case ge: False
      from "1.prems" True ge have run: "partitionLoop st1 arr pv high i (j + 1) = (i', arr', st')"
        by (simp add: partitionLoop.simps[of st] Let_def st1_def)
      let ?rest = "scanSteps pv high i arr [j + 1..high - 1]"
      from "1.IH"(2)[OF True st1_def ge run]
      have a: "steps st' = steps st1 @ ?rest"
        and b: "i' = i + int (length (filter (\<lambda>s. compare (highlight s) = None) ?rest))"
        and c: "j + 1 < high \<longrightarrow> array (last ?rest) = arr'" by simp_all
      have e: "scanSteps pv high i arr [j..high - 1] = ?c # ?rest" using ge by (simp add: up)
      have l: "array (last (?c # ?rest)) = arr'"
      proof (cases "j + 1 < high")
        case True
        then have "?rest \<noteq> []" by (simp add: upto_rec1[of "j + 1"])
        then show ?thesis using c True by simp
      next
        case False
        then have "arr' = arr" "?rest = []" using run by (simp_all add: partitionLoop.simps)
        then show ?thesis by simp
      qed
      show ?thesis unfolding e using a b l by (simp add: st1_def saveStep_def)
    next
      case lt: True
      define arr1 where "arr1 = swap arr (i + 1) j"
      define st2 where "st2 = saveStep arr1 \<lparr>pivot = Some high, compare = None, sorted_flag = None\<rparr> st1"
      let ?w = "\<lparr>array = arr1, highlight = \<lparr>pivot = Some high, compare = None, sorted_flag = None\<rparr>\<rparr>"
      from "1.prems" True lt
      have run: "partitionLoop st2 arr1 pv high (i + 1) (j + 1) = (i', arr', st')"
        by (simp add: partitionLoop.simps[of st] Let_def st1_def st2_def arr1_def)
      have a1: "arr1 = swap arr (i + 1) j" by (simp add: arr1_def)
      let ?rest = "scanSteps pv high (i + 1) arr1 [j + 1..high - 1]"
      from "1.IH"(1)[OF True st1_def lt refl a1 st2_def run]
      have a: "steps st' = steps st2 @ ?rest"
        and b: "i' = i + 1 + int (length (filter (\<lambda>s. compare (highlight s) = None) ?rest))"
        and c: "j + 1 < high \<longrightarrow> array (last ?rest) = arr'" by simp_all
      have e: "scanSteps pv high i arr [j..high - 1] = ?c # ?w # ?rest"
        using lt by (simp add: up arr1_def)
      have l: "array (last (?c # ?w # ?rest)) = arr'"
      proof (cases "j + 1 < high")
        case True
        then have "?rest \<noteq> []" by (simp add: upto_rec1[of "j + 1"])
        then show ?thesis using c True by simp
      next
        case False
        then have "arr' = arr1" "?rest = []" using run by (simp_all add: partitionLoop.simps)
        then show ?thesis by simp
      qed
      show ?thesis unfolding e using a b l by (simp add: st1_def st2_def saveStep_def)
    qed
  qed
qed

lemma randomizedPartition_frame:
  assumes run: "randomizedPartition rnd st arr low high = (p, arr', st')"
  shows "\<exists>new. st' = st\<lparr>randomCalls := randomCalls st + 1, steps := steps st @ new\<rparr>
    \<and> (\<forall>rnd2 s. randomIndexOf (rnd2 (randomCalls s)) low high
                  = randomIndexOf (rnd (randomCalls st)) low high \<longrightarrow>
          randomizedPartition rnd2 s arr low high
            = (p, arr', s\<lparr>randomCalls := randomCalls s + 1, steps := steps s @ new\<rparr>))"
proof -
  define r where "r = randomIndexOf (rnd (randomCalls st)) low high"
  define arr1 where "arr1 = swap arr r high"
  let ?h = "\<lparr>pivot = Some r, compare = None, sorted_flag = None\<rparr>"
  from randomizedPartition_unfold[OF run] obtain i arr2 st2 where
    L: "partitionLoop (saveStep arr ?h (st\<lparr>randomCalls := randomCalls st + 1\<rparr>))
          arr1 (arr1 ! nat high) high (low - 1) low = (i, arr2, st2)"
    and p: "p = i + 1" and a: "arr' = swap arr2 (i + 1) high"
    and s: "st' = saveStep arr' no_highlight st2"
    unfolding r_def arr1_def by blast
  from partitionLoop_frame[OF L] obtain new where
    n: "\<And>s. partitionLoop s arr1 (arr1 ! nat high) high (low - 1) low
           = (i, arr2, s\<lparr>steps := steps s @ new\<rparr>)"
    by blast
  let ?new = "\<lparr>array = arr, highlight = ?h\<rparr> # new @ [\<lparr>array = arr', highlight = no_highlight\<rparr>]"
  have "st2 = (saveStep arr ?h (st\<lparr>randomCalls := randomCalls st + 1\<rparr>))
          \<lparr>steps := steps (saveStep arr ?h (st\<lparr>randomCalls := randomCalls st + 1\<rparr>)) @ new\<rparr>"
    using L n by simp
  then have c1: "st' = st\<lparr>randomCalls := randomCalls st + 1, steps := steps st @ ?new\<rparr>"
    using s by (simp add: saveStep_def)
  have c2: "\<forall>rnd2 s. randomIndexOf (rnd2 (randomCalls s)) low high = r \<longrightarrow>
          randomizedPartition rnd2 s arr low high
            = (p, arr', s\<lparr>randomCalls := randomCalls s + 1, steps := steps s @ ?new\<rparr>)"
    using n p a by (simp add: randomizedPartition_def Math_random_def Let_def arr1_def saveStep_def)
  from c1 c2 have "st' = st\<lparr>randomCalls := randomCalls st + 1, steps := steps st @ ?new\<rparr>
    \<and> (\<forall>rnd2 s. randomIndexOf (rnd2 (randomCalls s)) low high = r \<longrightarrow>
          randomizedPartition rnd2 s arr low high
            = (p, arr', s\<lparr>randomCalls := randomCalls s + 1, steps := steps s @ ?new\<rparr>))" by (rule conjI)
  then show ?thesis unfolding r_def by (rule exI)
qed

lemma randomizedPartition_trace:
  assumes run: "randomizedPartition rnd st arr low high = (p, arr', st')" and low0: "0 \<le> low"
  shows "\<exists>new. steps st' = steps st @ new
    \<and> map highlight new =
        \<lparr>pivot = Some (randomIndexOf (rnd (randomCalls st)) low high), compare = None, sorted_flag = None\<rparr> #
        scanHighlights (swap arr (randomIndexOf (rnd (randomCalls st)) low high) high)
          (swap arr (randomIndexOf (rnd (randomCalls st)) low high) high ! nat high) low high
        @ [no_highlight]
    \<and> array (hd new) = arr \<and> array (last new) = arr'
    \<and> (low < high \<and> high < int (length arr) \<and> low \<le> randomIndexOf (rnd (randomCalls st)) low high
         \<and> randomIndexOf (rnd (randomCalls st)) low high \<le> high
       \<longrightarrow> (\<forall>x\<in>set new. mset (array x) = mset arr))"
proof -
  define r where "r = randomIndexOf (rnd (randomCalls st)) low high"
  define arr1 where "arr1 = swap arr r high"
  let ?h = "\<lparr>pivot = Some r, compare = None, sorted_flag = None\<rparr>"
  define st1 where "st1 = saveStep arr ?h (st\<lparr>randomCalls := randomCalls st + 1\<rparr>)"
  from randomizedPartition_unfold[OF run] obtain i arr2 st2 where
    L: "partitionLoop st1 arr1 (arr1 ! nat high) high (low - 1) low = (i, arr2, st2)"
    and p: "p = i + 1" and a: "arr' = swap arr2 (i + 1) high"
    and s: "st' = saveStep arr' no_highlight st2"
    unfolding r_def arr1_def st1_def by blast
  have b: "0 \<le> low - 1 + 1" "low - 1 < low" using low0 by simp_all
  from partitionLoop_trace[OF L b] obtain new where
    n: "steps st2 = steps st1 @ new" "map highlight new = scanHighlights arr1 (arr1 ! nat high) low high"
       "low \<le> high \<and> high < int (length arr1) \<longrightarrow> (\<forall>x\<in>set new. mset (array x) = mset arr1)"
    by blast
  let ?new = "\<lparr>array = arr, highlight = ?h\<rparr> # new @ [\<lparr>array = arr', highlight = no_highlight\<rparr>]"
  have c1: "steps st' = steps st @ ?new" using s n(1) by (simp add: saveStep_def st1_def)
  have c2: "map highlight ?new = ?h # scanHighlights arr1 (arr1 ! nat high) low high @ [no_highlight]"
    using n(2) by simp
  have c3: "array (hd ?new) = arr \<and> array (last ?new) = arr'" by simp
  have c4: "low < high \<and> high < int (length arr) \<and> low \<le> r \<and> r \<le> high
       \<longrightarrow> (\<forall>x\<in>set ?new. mset (array x) = mset arr)"
  proof
    assume h: "low < high \<and> high < int (length arr) \<and> low \<le> r \<and> r \<le> high"
    have ri: "low \<le> randomIndexOf (rnd (randomCalls st)) low high"
      "randomIndexOf (rnd (randomCalls st)) low high \<le> high" using h by (simp_all add: r_def)
    have m1: "mset arr1 = mset arr"
      unfolding arr1_def using h low0 by (intro mset_swap_in_range) auto
    have "mset arr' = mset arr"
      using randomizedPartition_post[OF run low0 _ _ ri, of "\<lambda>_. True"] h by simp
    then show "\<forall>x\<in>set ?new. mset (array x) = mset arr"
      using n(3) h m1 by (simp add: arr1_def)
  qed
  have "steps st' = steps st @ ?new \<and> map highlight ?new = ?h # scanHighlights arr1 (arr1 ! nat high) low high @ [no_highlight]
      \<and> array (hd ?new) = arr \<and> array (last ?new) = arr'
      \<and> (low < high \<and> high < int (length arr) \<and> low \<le> r \<and> r \<le> high
       \<longrightarrow> (\<forall>x\<in>set ?new. mset (array x) = mset arr))"
    using c1 c2 c3 c4 by (intro conjI) simp_all
  then show ?thesis unfolding r_def arr1_def by (rule exI)
qed

lemma randomizedQuickSort_frame:
  "randomizedQuickSort rnd st arr low high = (arr', st') \<Longrightarrow>
   \<exists>new n. st' = st\<lparr>randomCalls := randomCalls st + n, steps := steps st @ new\<rparr> \<and> n \<le> nat (high - low)"
proof (induction st arr low high arbitrary: arr' st' rule: randomizedQuickSort_induct[where rnd = rnd])
  case (base st arr low high)
  then have "st' = st\<lparr>randomCalls := randomCalls st + 0, steps := steps st @ []\<rparr>"
    by (simp add: randomizedQuickSort_base)
  then show ?case by blast
next
  case (step st arr low high p arr1 st1 arr2 st2)
  note lh = step.hyps(1) and part = step.hyps(2) and left = step.hyps(3)
  from step.prems(1) have right: "randomizedQuickSort rnd st2 arr2 (p + 1) high = (arr', st')"
    using randomizedQuickSort_step[OF lh part left] by simp
  from randomizedPartition_frame[OF part] obtain new0 where
    f0: "st1 = st\<lparr>randomCalls := randomCalls st + 1, steps := steps st @ new0\<rparr>" by blast
  from step.IH(1)[OF left] obtain new1 n1 where
    f1: "st2 = st1\<lparr>randomCalls := randomCalls st1 + n1, steps := steps st1 @ new1\<rparr>"
    and b1: "n1 \<le> nat (p - 1 - low)" by blast
  from step.IH(2)[OF right] obtain new2 n2 where
    f2: "st' = st2\<lparr>randomCalls := randomCalls st2 + n2, steps := steps st2 @ new2\<rparr>"
    and b2: "n2 \<le> nat (high - (p + 1))" by blast
  have pb: "low \<le> p \<and> p \<le> high" using randomizedPartition_pi_bounds[OF part] lh by simp
  have "st' = st\<lparr>randomCalls := randomCalls st + (1 + n1 + n2), steps := steps st @ (new0 @ new1 @ new2)\<rparr>"
    using f0 f1 f2 by simp
  moreover have "1 + n1 + n2 \<le> nat (high - low)" using b1 b2 pb lh by linarith
  ultimately have "st' = st\<lparr>randomCalls := randomCalls st + (1 + n1 + n2), steps := steps st @ (new0 @ new1 @ new2)\<rparr>
      \<and> 1 + n1 + n2 \<le> nat (high - low)" by (rule conjI)
  then show ?case by (intro exI)
qed

lemma randomizedQuickSort_trace:
  assumes "randomizedQuickSort rnd st arr low high = (arr', st')" and "0 \<le> low"
  shows "\<exists>new. steps st' = steps st @ new
    \<and> (if low < high then 3 \<le> length new \<and> array (last new) = arr' else new = [] \<and> arr' = arr)
    \<and> (unit_draws rnd \<and> high < int (length arr) \<longrightarrow>
         length arr' = length arr \<and> mset arr' = mset arr \<and> (\<forall>x\<in>set new. mset (array x) = mset arr))"
  using assms
proof (induction st arr low high arbitrary: arr' st' rule: randomizedQuickSort_induct[where rnd = rnd])
  case (base st arr low high)
  then have "steps st' = steps st @ []" "arr' = arr" by (simp_all add: randomizedQuickSort_base)
  then show ?case using base(1) by simp
next
  case (step st arr low high p arr1 st1 arr2 st2)
  note lh = step.hyps(1) and part = step.hyps(2) and left = step.hyps(3)
  from step.prems(1) have right: "randomizedQuickSort rnd st2 arr2 (p + 1) high = (arr', st')"
    using randomizedQuickSort_step[OF lh part left] by simp
  define r where "r = randomIndexOf (rnd (randomCalls st)) low high"
  have pb: "low \<le> p" "p \<le> high" using randomizedPartition_pi_bounds[OF part] lh by simp_all
  from randomizedPartition_trace[OF part step.prems(2)] obtain new0 where
    big: "steps st1 = steps st @ new0 \<and> map highlight new0 =
        \<lparr>pivot = Some r, compare = None, sorted_flag = None\<rparr> #
        scanHighlights (swap arr r high) (swap arr r high ! nat high) low high @ [no_highlight]
      \<and> array (hd new0) = arr \<and> array (last new0) = arr1
      \<and> (low < high \<and> high < int (length arr) \<and> low \<le> r \<and> r \<le> high
       \<longrightarrow> (\<forall>x\<in>set new0. mset (array x) = mset arr))"
    unfolding r_def by (elim exE)
  then have t0: "steps st1 = steps st @ new0" "array (last new0) = arr1" by simp_all
  have "length (scanHighlights a v low high) \<ge> 1" for a v
    using lh by (simp add: scanHighlights_unfold)
  then have l0: "3 \<le> length new0"
    using arg_cong[OF big[THEN conjunct2, THEN conjunct1], of length] by (simp add: Suc_le_eq)
  from step.IH(1)[OF left step.prems(2)] obtain new1 where
    t1: "steps st2 = steps st1 @ new1"
        "if low < p - 1 then 3 \<le> length new1 \<and> array (last new1) = arr2 else new1 = [] \<and> arr2 = arr1"
        "unit_draws rnd \<and> p - 1 < int (length arr1) \<longrightarrow>
           length arr2 = length arr1 \<and> mset arr2 = mset arr1 \<and> (\<forall>x\<in>set new1. mset (array x) = mset arr1)"
    by blast
  have p0: "0 \<le> p + 1" using pb step.prems(2) by simp
  from step.IH(2)[OF right p0] obtain new2 where
    t2: "steps st' = steps st2 @ new2"
        "if p + 1 < high then 3 \<le> length new2 \<and> array (last new2) = arr' else new2 = [] \<and> arr' = arr2"
        "unit_draws rnd \<and> high < int (length arr2) \<longrightarrow>
           length arr' = length arr2 \<and> mset arr' = mset arr2 \<and> (\<forall>x\<in>set new2. mset (array x) = mset arr2)"
    by blast
  let ?new = "new0 @ new1 @ new2"
  have c1: "steps st' = steps st @ ?new" using t0(1) t1(1) t2(1) by simp
  have ne0: "new0 \<noteq> []" using l0 by auto
  have last1: "array (last (new0 @ new1)) = arr2"
  proof (cases "low < p - 1")
    case True
    then have "new1 \<noteq> []" "array (last new1) = arr2" using t1(2) by auto
    then show ?thesis by simp
  next
    case False
    then show ?thesis using t1(2) t0(2) ne0 by simp
  qed
  have c4: "array (last ?new) = arr'"
  proof (cases "p + 1 < high")
    case True
    then have "new2 \<noteq> []" "array (last new2) = arr'" using t2(2) by auto
    then show ?thesis by simp
  next
    case False
    then have "new2 = []" "arr' = arr2" using t2(2) by auto
    then show ?thesis using last1 by simp
  qed
  have c5: "3 \<le> length ?new" using l0 by simp
  have c6: "unit_draws rnd \<and> high < int (length arr) \<longrightarrow>
         length arr' = length arr \<and> mset arr' = mset arr \<and> (\<forall>x\<in>set ?new. mset (array x) = mset arr)"
  proof
    assume h: "unit_draws rnd \<and> high < int (length arr)"
    have ri: "low \<le> r" "r \<le> high"
      using randomIndex_range[of "rnd (randomCalls st)" low high] h lh
      by (auto simp: unit_draws_def r_def)
    have m1: "mset arr1 = mset arr"
      using randomizedPartition_post[OF part step.prems(2) lh _ ri[unfolded r_def], of "\<lambda>_. True"] h
      by simp
    have len1: "length arr1 = length arr" by (rule randomizedPartition_length[OF part])
    have a0: "\<forall>x\<in>set new0. mset (array x) = mset arr" using big lh h ri by simp
    have a1: "length arr2 = length arr1 \<and> mset arr2 = mset arr1 \<and> (\<forall>x\<in>set new1. mset (array x) = mset arr1)"
      using t1(3) h pb len1 by simp
    have a2: "length arr' = length arr2 \<and> mset arr' = mset arr2 \<and> (\<forall>x\<in>set new2. mset (array x) = mset arr2)"
      using t2(3) h a1 len1 by simp
    show "length arr' = length arr \<and> mset arr' = mset arr \<and> (\<forall>x\<in>set ?new. mset (array x) = mset arr)"
      using a0 a1 a2 m1 len1 by auto
  qed
  have "steps st' = steps st @ ?new
    \<and> (if low < high then 3 \<le> length ?new \<and> array (last ?new) = arr' else ?new = [] \<and> arr' = arr)
    \<and> (unit_draws rnd \<and> high < int (length arr) \<longrightarrow>
         length arr' = length arr \<and> mset arr' = mset arr \<and> (\<forall>x\<in>set ?new. mset (array x) = mset arr))"
    using c1 c4 c5 c6 lh by simp
  then show ?case by (rule exI)
qed

section \<open>The run of the entry point\<close>

lemma generateArray_invalid:
  "list_ex isNaN ns \<Longrightarrow>
   generateArray rnd (Numbers ns) g = (Inl InvalidInput, g\<lparr>steps := [], currentStep := 0\<rparr>)"
  by (simp add: generateArray_def)

lemma saveStep_fields [simp]:
  "steps (saveStep arr hl st) = steps st @ [\<lparr>array = arr, highlight = hl\<rparr>]"
  "array_glob (saveStep arr hl st) = array_glob st"
  "randomCalls (saveStep arr hl st) = randomCalls st"
  "currentStep (saveStep arr hl st) = currentStep st"
  by (simp_all add: saveStep_def)

lemma generateArray_steps:
  assumes ok: "\<not> list_ex isNaN ns"
  shows "\<exists>arr' st3 new.
      randomizedQuickSort rnd
        (saveStep ns no_highlight (g\<lparr>steps := [], currentStep := 0, array_glob := ns\<rparr>))
        ns 0 (int (length ns) - 1) = (arr', st3)
    \<and> generateArray rnd (Numbers ns) g =
        (Inr (), st3\<lparr>steps := \<lparr>array = ns, highlight = no_highlight\<rparr> # new @
           [\<lparr>array = arr', highlight = \<lparr>pivot = None, compare = None, sorted_flag = Some True\<rparr>\<rparr>]\<rparr>)
    \<and> steps st3 = \<lparr>array = ns, highlight = no_highlight\<rparr> # new
    \<and> (if 1 < length ns then 3 \<le> length new \<and> array (last new) = arr' else new = [] \<and> arr' = ns)
    \<and> (unit_draws rnd \<longrightarrow>
         length arr' = length ns \<and> mset arr' = mset ns \<and> (\<forall>x\<in>set new. mset (array x) = mset ns))"
proof -
  define st2 where "st2 = saveStep ns no_highlight (g\<lparr>steps := [], currentStep := 0, array_glob := ns\<rparr>)"
  obtain arr' st3 where
    run: "randomizedQuickSort rnd st2 ns 0 (int (length ns) - 1) = (arr', st3)"
    by (metis surj_pair)
  have s2: "steps st2 = [\<lparr>array = ns, highlight = no_highlight\<rparr>]" "array_glob st2 = ns"
    by (simp_all add: st2_def saveStep_def)
  from randomizedQuickSort_trace[OF run] obtain new where
    t: "steps st3 = steps st2 @ new"
       "if 0 < int (length ns) - 1 then 3 \<le> length new \<and> array (last new) = arr' else new = [] \<and> arr' = ns"
       "unit_draws rnd \<and> int (length ns) - 1 < int (length ns) \<longrightarrow>
         length arr' = length ns \<and> mset arr' = mset ns \<and> (\<forall>x\<in>set new. mset (array x) = mset ns)"
    by auto
  have lastarr: "array (last (steps st3)) = arr'"
  proof (cases "0 < int (length ns) - 1")
    case True
    then have "new \<noteq> []" "array (last new) = arr'" using t(2) by auto
    then show ?thesis using t(1) by simp
  next
    case False
    then show ?thesis using t(1,2) s2 by simp
  qed
  have gen: "generateArray rnd (Numbers ns) g =
      (Inr (), saveStep arr' \<lparr>pivot = None, compare = None, sorted_flag = Some True\<rparr> st3)"
    using ok run[unfolded st2_def] lastarr
    by (simp add: generateArray_def Let_def)
  have "saveStep arr' \<lparr>pivot = None, compare = None, sorted_flag = Some True\<rparr> st3
       = st3\<lparr>steps := \<lparr>array = ns, highlight = no_highlight\<rparr> # new @
           [\<lparr>array = arr', highlight = \<lparr>pivot = None, compare = None, sorted_flag = Some True\<rparr>\<rparr>]\<rparr>"
    using t(1) s2(1) by (simp add: saveStep_def)
  with gen have c2: "generateArray rnd (Numbers ns) g =
        (Inr (), st3\<lparr>steps := \<lparr>array = ns, highlight = no_highlight\<rparr> # new @
           [\<lparr>array = arr', highlight = \<lparr>pivot = None, compare = None, sorted_flag = Some True\<rparr>\<rparr>]\<rparr>)"
    by simp
  have c3: "if 1 < length ns then 3 \<le> length new \<and> array (last new) = arr' else new = [] \<and> arr' = ns"
    using t(2) by (auto split: if_splits)
  have c4: "unit_draws rnd \<longrightarrow>
         length arr' = length ns \<and> mset arr' = mset ns \<and> (\<forall>x\<in>set new. mset (array x) = mset ns)"
    using t(3) by simp
  have c5: "steps st3 = \<lparr>array = ns, highlight = no_highlight\<rparr> # new" using t(1) s2(1) by simp
  from run c2 c3 c4 c5 show ?thesis unfolding st2_def by blast
qed


lemma pivotChoices_base: "\<not> low < high \<Longrightarrow> pivotChoices rnd st arr low high = []"
  by (simp add: pivotChoices.simps)

lemma pivotChoices_step:
  "low < high \<Longrightarrow> randomizedPartition rnd st arr low high = (p, arr1, st1) \<Longrightarrow>
   randomizedQuickSort rnd st1 arr1 low (p - 1) = (arr2, st2) \<Longrightarrow>
   pivotChoices rnd st arr low high =
     randomIndexOf (rnd (randomCalls st)) low high #
     pivotChoices rnd st1 arr1 low (p - 1) @ pivotChoices rnd st2 arr2 (p + 1) high"
  by (simp add: pivotChoices.simps[of rnd st arr low high])

lemma randomizedQuickSort_lockstep:
  assumes "randomizedQuickSort rnd st arr low high = (arr', st')"
    and "pivotChoices rnd st arr low high @ ra = pivotChoices rnd2 s arr low high @ rb"
  shows "\<exists>new n. st' = st\<lparr>randomCalls := randomCalls st + n, steps := steps st @ new\<rparr>
    \<and> randomizedQuickSort rnd2 s arr low high
        = (arr', s\<lparr>randomCalls := randomCalls s + n, steps := steps s @ new\<rparr>)
    \<and> ra = rb"
  using assms
proof (induction st arr low high arbitrary: arr' st' s ra rb
    rule: randomizedQuickSort_induct[where rnd = rnd])
  case (base st arr low high)
  then have "st' = st\<lparr>randomCalls := randomCalls st + 0, steps := steps st @ []\<rparr>
      \<and> randomizedQuickSort rnd2 s arr low high
        = (arr', s\<lparr>randomCalls := randomCalls s + 0, steps := steps s @ []\<rparr>) \<and> ra = rb"
    by (simp add: randomizedQuickSort_base pivotChoices_base)
  then show ?case by blast
next
  case (step st arr low high p arr1 st1 arr2 st2)
  note lh = step.hyps(1) and part = step.hyps(2) and left = step.hyps(3)
  from step.prems(1) have right: "randomizedQuickSort rnd st2 arr2 (p + 1) high = (arr', st')"
    using randomizedQuickSort_step[OF lh part left] by simp
  obtain q b1 s1 where part2: "randomizedPartition rnd2 s arr low high = (q, b1, s1)"
    by (metis prod_cases3)
  obtain b2 s2 where left2: "randomizedQuickSort rnd2 s1 b1 low (q - 1) = (b2, s2)"
    by (metis surj_pair)
  from step.prems(2) have logs:
    "randomIndexOf (rnd (randomCalls st)) low high = randomIndexOf (rnd2 (randomCalls s)) low high"
    "pivotChoices rnd st1 arr1 low (p - 1) @ pivotChoices rnd st2 arr2 (p + 1) high @ ra
       = pivotChoices rnd2 s1 b1 low (q - 1) @ pivotChoices rnd2 s2 b2 (q + 1) high @ rb"
    by (simp_all add: pivotChoices_step[OF lh part left] pivotChoices_step[OF lh part2 left2])
  from randomizedPartition_frame[OF part] obtain new0 where
    f0: "st1 = st\<lparr>randomCalls := randomCalls st + 1, steps := steps st @ new0\<rparr>"
    and g0: "\<And>rnd2 s. randomIndexOf (rnd2 (randomCalls s)) low high
                  = randomIndexOf (rnd (randomCalls st)) low high \<Longrightarrow>
          randomizedPartition rnd2 s arr low high
            = (p, arr1, s\<lparr>randomCalls := randomCalls s + 1, steps := steps s @ new0\<rparr>)"
    by blast
  from g0[of rnd2 s, OF logs(1)[symmetric]] part2
  have e0: "q = p" "b1 = arr1" "s1 = s\<lparr>randomCalls := randomCalls s + 1, steps := steps s @ new0\<rparr>"
    by simp_all
  from step.IH(1)[OF left logs(2)[unfolded e0(1,2)]] obtain new1 n1 where
    f1: "st2 = st1\<lparr>randomCalls := randomCalls st1 + n1, steps := steps st1 @ new1\<rparr>"
    and g1: "randomizedQuickSort rnd2 s1 arr1 low (p - 1)
        = (arr2, s1\<lparr>randomCalls := randomCalls s1 + n1, steps := steps s1 @ new1\<rparr>)"
    and r1: "pivotChoices rnd st2 arr2 (p + 1) high @ ra = pivotChoices rnd2 s2 b2 (p + 1) high @ rb"
    by blast
  from g1 left2 e0 have e1: "b2 = arr2" "s2 = s1\<lparr>randomCalls := randomCalls s1 + n1, steps := steps s1 @ new1\<rparr>"
    by simp_all
  from step.IH(2)[OF right r1[unfolded e1(1)]] obtain new2 n2 where
    f2: "st' = st2\<lparr>randomCalls := randomCalls st2 + n2, steps := steps st2 @ new2\<rparr>"
    and g2: "randomizedQuickSort rnd2 s2 arr2 (p + 1) high
        = (arr', s2\<lparr>randomCalls := randomCalls s2 + n2, steps := steps s2 @ new2\<rparr>)"
    and r2: "ra = rb"
    by blast
  have run2: "randomizedQuickSort rnd2 s arr low high = randomizedQuickSort rnd2 s2 arr2 (p + 1) high"
    using randomizedQuickSort_step[OF lh part2 left2] e0 e1 by simp
  have c1: "st' = st\<lparr>randomCalls := randomCalls st + (1 + n1 + n2), steps := steps st @ (new0 @ new1 @ new2)\<rparr>"
    using f0 f1 f2 by simp
  have c2: "randomizedQuickSort rnd2 s arr low high
        = (arr', s\<lparr>randomCalls := randomCalls s + (1 + n1 + n2), steps := steps s @ (new0 @ new1 @ new2)\<rparr>)"
    using run2 g2 e0(3) e1(2) by simp
  from c1 c2 r2 have "st' = st\<lparr>randomCalls := randomCalls st + (1 + n1 + n2), steps := steps st @ (new0 @ new1 @ new2)\<rparr>
    \<and> randomizedQuickSort rnd2 s arr low high
        = (arr', s\<lparr>randomCalls := randomCalls s + (1 + n1 + n2), steps := steps s @ (new0 @ new1 @ new2)\<rparr>)
    \<and> ra = rb" by simp
  then show ?case by (intro exI)
qed

text \<open>The equations that evaluate a run on a concrete input.\<close>

lemmas eval_simps = generateArray_def randomizedQuickSort.simps randomizedPartition_def Math_random_def
  randomIndexOf_def swap_def saveStep_def partitionLoop.simps no_highlight_def Let_def initial_globals_def
  unit_draws_def chosenPivots_def pivotChoices.simps scanHighlights_def


text \<open>The scenarios of the specification with at most one element, and one with duplicates.\<close>

lemma scenario_empty:
  "generateArray rnd (Numbers []) initial_globals =
     (Inr (), \<lparr>array_glob = [],
        steps = [\<lparr>array = [], highlight = \<lparr>pivot = None, compare = None, sorted_flag = None\<rparr>\<rparr>,
                 \<lparr>array = [], highlight = \<lparr>pivot = None, compare = None, sorted_flag = Some True\<rparr>\<rparr>],
        currentStep = 0, randomCalls = 0\<rparr>)"
  by (simp add: eval_simps)

lemma scenario_single:
  "generateArray rnd (Numbers [Finite 5]) initial_globals =
     (Inr (), \<lparr>array_glob = [Finite 5],
        steps = [\<lparr>array = [Finite 5], highlight = \<lparr>pivot = None, compare = None, sorted_flag = None\<rparr>\<rparr>,
                 \<lparr>array = [Finite 5], highlight = \<lparr>pivot = None, compare = None, sorted_flag = Some True\<rparr>\<rparr>],
        currentStep = 0, randomCalls = 0\<rparr>)"
  by (simp add: eval_simps)

lemma scenario_duplicates:
  "map highlight (steps (snd (generateArray (\<lambda>_. 0) (Numbers [Finite 2, Finite 2, Finite 2]) initial_globals)))
   = [\<lparr>pivot = None, compare = None, sorted_flag = None\<rparr>,
      \<lparr>pivot = Some 0, compare = None, sorted_flag = None\<rparr>,
      \<lparr>pivot = Some 2, compare = Some 0, sorted_flag = None\<rparr>,
      \<lparr>pivot = Some 2, compare = Some 1, sorted_flag = None\<rparr>,
      \<lparr>pivot = None, compare = None, sorted_flag = None\<rparr>,
      \<lparr>pivot = Some 1, compare = None, sorted_flag = None\<rparr>,
      \<lparr>pivot = Some 2, compare = Some 1, sorted_flag = None\<rparr>,
      \<lparr>pivot = None, compare = None, sorted_flag = None\<rparr>,
      \<lparr>pivot = None, compare = None, sorted_flag = Some True\<rparr>]"
  by (simp add: eval_simps)

section \<open>The store model simulates the first model\<close>

lemma saveStep_h_fields [simp]:
  "fresh (saveStep_h arr hl st) = fresh st + 1"
  "array_var (saveStep_h arr hl st) = array_var st"
  "currentStep_h (saveStep_h arr hl st) = currentStep_h st"
  "randomCalls_h (saveStep_h arr hl st) = randomCalls_h st"
  "steps_h (saveStep_h arr hl st) = steps_h st @ [\<lparr>array_ref = fresh st, highlight_h = hl\<rparr>]"
  "store (saveStep_h arr hl st) = (store st)(fresh st := store st arr)"
  by (simp_all add: saveStep_h_def newArray_def)

lemma swap_h_fields [simp]:
  "fresh (swap_h arr a b st) = fresh st"
  "array_var (swap_h arr a b st) = array_var st"
  "currentStep_h (swap_h arr a b st) = currentStep_h st"
  "randomCalls_h (swap_h arr a b st) = randomCalls_h st"
  "steps_h (swap_h arr a b st) = steps_h st"
  "store (swap_h arr a b st) = (store st)(arr := swap (store st arr) a b)"
  by (simp_all add: swap_h_def)

lemma trace_of_store_upd:
  "list_all (\<lambda>s. array_ref s \<noteq> a) (steps_h st) \<Longrightarrow> steps_h st' = steps_h st \<Longrightarrow>
   store st' = (store st)(a := v) \<Longrightarrow> trace_of st' = trace_of st"
  by (simp add: trace_of_def list_all_iff)

lemma saveStep_h_sim:
  assumes "allocated st"
  shows "globals_of (saveStep_h arr hl st) = saveStep (store st arr) hl (globals_of st)"
    and "allocated (saveStep_h arr hl st)"
proof -
  have nf: "list_all (\<lambda>s. array_ref s \<noteq> fresh st) (steps_h st)" "array_var st \<noteq> fresh st"
    using assms by (auto simp: allocated_def list_all_iff)
  have "map (\<lambda>s. \<lparr>array = ((store st)(fresh st := store st arr)) (array_ref s), highlight = highlight_h s\<rparr>)
          (steps_h st) = trace_of st"
    using nf(1) by (simp add: trace_of_def list_all_iff)
  then have "trace_of (saveStep_h arr hl st) = trace_of st @ [\<lparr>array = store st arr, highlight = hl\<rparr>]"
    by (simp add: trace_of_def)
  then show "globals_of (saveStep_h arr hl st) = saveStep (store st arr) hl (globals_of st)"
    using nf(2) by (simp add: globals_of_def saveStep_def)
  show "allocated (saveStep_h arr hl st)"
    using assms by (auto simp: allocated_def list_all_iff)
qed

lemma saveStep_h_apart:
  "apart st a \<Longrightarrow> apart (saveStep_h arr hl st) a \<and> store (saveStep_h arr hl st) a = store st a"
  by (auto simp: apart_def)

lemma swap_h_sim:
  assumes "allocated st" "apart st arr"
  shows "globals_of (swap_h arr a b st) = globals_of st"
    and "allocated (swap_h arr a b st)" and "apart (swap_h arr a b st) arr"
    and "store (swap_h arr a b st) arr = swap (store st arr) a b"
proof -
  have "trace_of (swap_h arr a b st) = trace_of st"
    using assms(2) by (intro trace_of_store_upd[of arr st _ "swap (store st arr) a b"]) (simp_all add: apart_def)
  then show "globals_of (swap_h arr a b st) = globals_of st"
    using assms(2) by (simp add: globals_of_def apart_def)
  show "allocated (swap_h arr a b st)" using assms(1) by (simp add: allocated_def)
  show "apart (swap_h arr a b st) arr" using assms(2) by (simp add: apart_def)
  show "store (swap_h arr a b st) arr = swap (store st arr) a b" by simp
qed

lemma partitionLoop_h_sim:
  assumes "partitionLoop_h st arr pv high i j = (i', st')" and "allocated st" "apart st arr"
  shows "partitionLoop (globals_of st) (store st arr) pv high i j = (i', store st' arr, globals_of st')
       \<and> allocated st' \<and> apart st' arr"
  using assms
proof (induction st arr pv high i j arbitrary: i' st' rule: partitionLoop_h.induct)
  case (1 st arr pv high i j)
  show ?case
  proof (cases "j < high")
    case False
    with "1.prems" show ?thesis by (simp add: partitionLoop_h.simps partitionLoop.simps)
  next
    case True
    let ?c = "\<lparr>pivot = Some high, compare = Some j, sorted_flag = None\<rparr>"
    let ?w = "\<lparr>pivot = Some high, compare = None, sorted_flag = None\<rparr>"
    define st1 where "st1 = saveStep_h arr ?c st"
    have g1: "globals_of st1 = saveStep (store st arr) ?c (globals_of st)"
      and a1: "allocated st1" and p1: "apart st1 arr" and s1: "store st1 arr = store st arr"
      using saveStep_h_sim[OF "1.prems"(2), of arr ?c] saveStep_h_apart[OF "1.prems"(3), of arr ?c]
      by (simp_all add: st1_def)
    show ?thesis
    proof (cases "js_lt (store st1 arr ! nat j) pv")
      case ge: False
      from "1.prems"(1) True ge have run: "partitionLoop_h st1 arr pv high i (j + 1) = (i', st')"
        by (simp add: partitionLoop_h.simps[of st] Let_def st1_def)
      from "1.IH"(2)[OF True st1_def ge run a1 p1]
      have "partitionLoop (globals_of st1) (store st1 arr) pv high i (j + 1) = (i', store st' arr, globals_of st')"
        and r: "allocated st' \<and> apart st' arr" by simp_all
      then have "partitionLoop (globals_of st) (store st arr) pv high i j = (i', store st' arr, globals_of st')"
        using True ge s1 g1 by (simp add: partitionLoop.simps[of "globals_of st"] Let_def)
      with r show ?thesis by simp
    next
      case lt: True
      define st2 where "st2 = swap_h arr (i + 1) j st1"
      define st3 where "st3 = saveStep_h arr ?w st2"
      have g2: "globals_of st2 = globals_of st1" and a2: "allocated st2" and p2: "apart st2 arr"
        and s2: "store st2 arr = swap (store st arr) (i + 1) j"
        using swap_h_sim[OF a1 p1, of "i + 1" j] s1 by (simp_all add: st2_def)
      have g3: "globals_of st3 = saveStep (store st2 arr) ?w (globals_of st2)"
        and a3: "allocated st3" and p3: "apart st3 arr" and s3: "store st3 arr = store st2 arr"
        using saveStep_h_sim[OF a2, of arr ?w] saveStep_h_apart[OF p2, of arr ?w]
        by (simp_all add: st3_def)
      from "1.prems"(1) True lt
      have run: "partitionLoop_h st3 arr pv high (i + 1) (j + 1) = (i', st')"
        by (simp add: partitionLoop_h.simps[of st] Let_def st1_def st2_def st3_def)
      from "1.IH"(1)[OF True st1_def lt refl st2_def st3_def run a3 p3]
      have "partitionLoop (globals_of st3) (store st3 arr) pv high (i + 1) (j + 1)
              = (i', store st' arr, globals_of st')"
        and r: "allocated st' \<and> apart st' arr" by simp_all
      then have "partitionLoop (globals_of st) (store st arr) pv high i j = (i', store st' arr, globals_of st')"
        using True lt s1 s2 s3 g1 g2 g3 by (simp add: partitionLoop.simps[of "globals_of st"] Let_def)
      with r show ?thesis by simp
    qed
  qed
qed

lemma randomizedPartition_h_sim:
  assumes run: "randomizedPartition_h rnd st arr low high = (p, st')"
    and al: "allocated st" and ap: "apart st arr"
  shows "randomizedPartition rnd (globals_of st) (store st arr) low high
           = (p, store st' arr, globals_of st')
       \<and> allocated st' \<and> apart st' arr"
proof -
  define r where "r = randomIndexOf (rnd (randomCalls_h st)) low high"
  let ?h = "\<lparr>pivot = Some r, compare = None, sorted_flag = None\<rparr>"
  define st0 where "st0 = st\<lparr>randomCalls_h := randomCalls_h st + 1\<rparr>"
  define st1 where "st1 = saveStep_h arr ?h st0"
  define st2 where "st2 = swap_h arr r high st1"
  obtain i st3 where
    L: "partitionLoop_h st2 arr (store st2 arr ! nat high) high (low - 1) low = (i, st3)"
    by (metis surj_pair)
  define st4 where "st4 = swap_h arr (i + 1) high st3"
  from run L have p: "p = i + 1" and s': "st' = saveStep_h arr no_highlight st4"
    by (auto simp add: randomizedPartition_h_def Math_random_h_def Let_def
        r_def st0_def st1_def st2_def st4_def)
  have a0: "allocated st0" and p0: "apart st0 arr"
    using al ap by (simp_all add: st0_def allocated_def apart_def)
  have g0: "globals_of st0 = (globals_of st)\<lparr>randomCalls := randomCalls (globals_of st) + 1\<rparr>"
    by (simp add: st0_def globals_of_def trace_of_def)
  have s0: "store st0 arr = store st arr" by (simp add: st0_def)
  have g1: "globals_of st1 = saveStep (store st arr) ?h (globals_of st0)"
    and a1: "allocated st1" and p1: "apart st1 arr" and s1: "store st1 arr = store st arr"
    using saveStep_h_sim[OF a0, of arr ?h] saveStep_h_apart[OF p0, of arr ?h] s0
    by (simp_all add: st1_def)
  have g2: "globals_of st2 = globals_of st1" and a2: "allocated st2" and p2: "apart st2 arr"
    and s2: "store st2 arr = swap (store st arr) r high"
    using swap_h_sim[OF a1 p1, of r high] s1 by (simp_all add: st2_def)
  from partitionLoop_h_sim[OF L a2 p2]
  have L': "partitionLoop (globals_of st2) (store st2 arr) (store st2 arr ! nat high) high (low - 1) low
              = (i, store st3 arr, globals_of st3)"
    and a3: "allocated st3" and p3: "apart st3 arr" by simp_all
  have g4: "globals_of st4 = globals_of st3" and a4: "allocated st4" and p4: "apart st4 arr"
    and s4: "store st4 arr = swap (store st3 arr) (i + 1) high"
    using swap_h_sim[OF a3 p3, of "i + 1" high] by (simp_all add: st4_def)
  have g5: "globals_of st' = saveStep (store st4 arr) no_highlight (globals_of st4)"
    and a5: "allocated st'" and p5: "apart st' arr" and s5: "store st' arr = store st4 arr"
    using saveStep_h_sim[OF a4, of arr no_highlight] saveStep_h_apart[OF p4, of arr no_highlight]
    by (simp_all add: s')
  have rc: "randomCalls (globals_of st) = randomCalls_h st" by (simp add: globals_of_def)
  have "randomizedPartition rnd (globals_of st) (store st arr) low high
           = (p, store st' arr, globals_of st')"
    using L' p g0 g1 g2 g4 g5 s2 s4 s5
    by (simp add: randomizedPartition_def Math_random_def Let_def rc r_def)
  with a5 p5 show ?thesis by simp
qed

lemma randomizedQuickSort_h_sim:
  assumes "allocated st" "apart st arr"
  shows "randomizedQuickSort rnd (globals_of st) (store st arr) low high
           = (store (randomizedQuickSort_h rnd st arr low high) arr,
              globals_of (randomizedQuickSort_h rnd st arr low high))
       \<and> allocated (randomizedQuickSort_h rnd st arr low high)
       \<and> apart (randomizedQuickSort_h rnd st arr low high) arr"
  using assms
proof (induction rnd st arr low high rule: randomizedQuickSort_h.induct)
  case (1 rnd st arr low high)
  show ?case
  proof (cases "low < high")
    case False
    then show ?thesis using "1.prems"
      by (simp add: randomizedQuickSort_h.simps randomizedQuickSort.simps)
  next
    case True
    obtain p st1 where part: "randomizedPartition_h rnd st arr low high = (p, st1)"
      by (metis surj_pair)
    define st2 where "st2 = randomizedQuickSort_h rnd st1 arr low (p - 1)"
    from randomizedPartition_h_sim[OF part "1.prems"]
    have P: "randomizedPartition rnd (globals_of st) (store st arr) low high
           = (p, store st1 arr, globals_of st1)"
      and a1: "allocated st1" and p1: "apart st1 arr" by simp_all
    from "1.IH"(1)[OF True refl part[symmetric] a1 p1]
    have Lf: "randomizedQuickSort rnd (globals_of st1) (store st1 arr) low (p - 1)
           = (store st2 arr, globals_of st2)"
      and a2: "allocated st2" and p2: "apart st2 arr" by (simp_all add: st2_def)
    from "1.IH"(2)[OF True refl part[symmetric] st2_def a2 p2]
    have R: "randomizedQuickSort rnd (globals_of st2) (store st2 arr) (p + 1) high
           = (store (randomizedQuickSort_h rnd st2 arr (p + 1) high) arr,
              globals_of (randomizedQuickSort_h rnd st2 arr (p + 1) high))"
      and a3: "allocated (randomizedQuickSort_h rnd st2 arr (p + 1) high)"
      and p3: "apart (randomizedQuickSort_h rnd st2 arr (p + 1) high) arr" by simp_all
    have e: "randomizedQuickSort_h rnd st arr low high = randomizedQuickSort_h rnd st2 arr (p + 1) high"
      using True part by (simp add: randomizedQuickSort_h.simps[of rnd st arr low high] st2_def)
    have "randomizedQuickSort rnd (globals_of st) (store st arr) low high
        = randomizedQuickSort rnd (globals_of st2) (store st2 arr) (p + 1) high"
      by (rule randomizedQuickSort_step[OF True P Lf])
    with R a3 p3 e show ?thesis by simp
  qed
qed

lemma randomFill_h_sim:
  assumes "steps_h st = []"
  shows "globals_of (randomFill_h rnd st i) = randomFill rnd (globals_of st) i
       \<and> steps_h (randomFill_h rnd st i) = [] \<and> fresh (randomFill_h rnd st i) = fresh st
       \<and> array_var (randomFill_h rnd st i) = array_var st"
  using assms
proof (induction rnd st i rule: randomFill_h.induct)
  case (1 rnd st i)
  show ?case
  proof (cases "i < defaultSize")
    case False
    then show ?thesis using "1.prems" by (simp add: randomFill_h.simps randomFill.simps)
  next
    case True
    define st1 where "st1 = st\<lparr>randomCalls_h := randomCalls_h st + 1\<rparr>"
    define x where "x = Finite (real_of_int (\<lfloor>rnd (randomCalls_h st) * 100\<rfloor> + 1))"
    define st2 where "st2 = st1\<lparr>store := (store st1)(array_var st1 := store st1 (array_var st1) @ [x])\<rparr>"
    have mr: "Math_random_h rnd st = (rnd (randomCalls_h st), st1)"
      by (simp add: Math_random_h_def st1_def)
    have e2: "steps_h st2 = []" using "1.prems" by (simp add: st2_def st1_def)
    have "randomFill_h rnd st i = randomFill_h rnd st2 (i + 1)"
      using True by (simp add: randomFill_h.simps[of rnd st i] Math_random_h_def Let_def st1_def x_def st2_def)
    moreover have "randomFill rnd (globals_of st) i = randomFill rnd (globals_of st2) (i + 1)"
    proof -
      have "(globals_of st)\<lparr>randomCalls := randomCalls (globals_of st) + 1,
               array_glob := array_glob (globals_of st) @ [x]\<rparr> = globals_of st2"
        using "1.prems" by (simp add: globals_of_def trace_of_def st2_def st1_def)
      moreover have "randomFill rnd (globals_of st) i =
          randomFill rnd ((globals_of st)\<lparr>randomCalls := randomCalls (globals_of st) + 1,
               array_glob := array_glob (globals_of st) @ [x]\<rparr>) (i + 1)"
        using True
        by (subst randomFill.simps) (simp add: Math_random_def Let_def x_def globals_of_def)
      ultimately show ?thesis by simp
    qed
    moreover have "globals_of (randomFill_h rnd st2 (i + 1)) = randomFill rnd (globals_of st2) (i + 1)
       \<and> steps_h (randomFill_h rnd st2 (i + 1)) = [] \<and> fresh (randomFill_h rnd st2 (i + 1)) = fresh st2
       \<and> array_var (randomFill_h rnd st2 (i + 1)) = array_var st2"
      using "1.IH"[OF True mr[symmetric] refl] e2 by (simp add: st2_def x_def)
    ultimately show ?thesis by (simp add: st2_def st1_def)
  qed
qed

lemma newArray_fields [simp]:
  "fst (newArray xs st) = fresh st"
  "fresh (snd (newArray xs st)) = fresh st + 1"
  "array_var (snd (newArray xs st)) = array_var st"
  "steps_h (snd (newArray xs st)) = steps_h st"
  "currentStep_h (snd (newArray xs st)) = currentStep_h st"
  "randomCalls_h (snd (newArray xs st)) = randomCalls_h st"
  "store (snd (newArray xs st)) = (store st)(fresh st := xs)"
  by (simp_all add: newArray_def)

lemma newArray_sim:
  assumes "allocated st"
  shows "globals_of (snd (newArray xs st)) = globals_of st"
    and "allocated (snd (newArray xs st))"
    and "apart (snd (newArray xs st)) (fresh st)"
proof -
  have nf: "list_all (\<lambda>s. array_ref s \<noteq> fresh st) (steps_h st)" "array_var st \<noteq> fresh st"
    using assms by (auto simp: allocated_def list_all_iff)
  have "trace_of (snd (newArray xs st)) = trace_of st"
    using nf(1) by (intro trace_of_store_upd[of "fresh st" st _ xs]) simp_all
  then show "globals_of (snd (newArray xs st)) = globals_of st"
    using nf(2) by (simp add: globals_of_def)
  show "allocated (snd (newArray xs st))"
    using assms by (auto simp: allocated_def list_all_iff)
  show "apart (snd (newArray xs st)) (fresh st)"
    using assms by (auto simp: apart_def allocated_def list_all_iff)
qed

text \<open>The last three statements of \<open>generateArray\<close>, in both models.\<close>

definition sortTail :: "(nat \<Rightarrow> real) \<Rightarrow> globals \<Rightarrow> globals" where
  "sortTail rnd st1 =
     (let st2 = saveStep (array_glob st1) no_highlight st1;
          (arr, st3) = randomizedQuickSort rnd st2 (array_glob st2) 0
                         (int (length (array_glob st2)) - 1);
          st4 = saveStep (array (last (steps st3)))
                  \<lparr>pivot = None, compare = None, sorted_flag = Some True\<rparr> st3
      in st4)"

definition sortTail_h :: "(nat \<Rightarrow> real) \<Rightarrow> heap_globals \<Rightarrow> heap_globals" where
  "sortTail_h rnd st1 =
     (let st2 = saveStep_h (array_var st1) no_highlight st1;
          (work, st3) = newArray (store st2 (array_var st2)) st2;
          st4 = randomizedQuickSort_h rnd st3 work 0
                  (int (length (store st3 (array_var st3))) - 1);
          st5 = saveStep_h (array_ref (last (steps_h st4)))
                  \<lparr>pivot = None, compare = None, sorted_flag = Some True\<rparr> st4
      in st5)"

lemma generateArray_tail:
  "generateArray rnd inp st =
     (case inp of
        Blank \<Rightarrow> (Inr (), sortTail rnd (randomFill rnd (st\<lparr>steps := [], currentStep := 0, array_glob := []\<rparr>) 0))
      | Numbers ns \<Rightarrow>
          if list_ex isNaN ns then (Inl InvalidInput, st\<lparr>steps := [], currentStep := 0\<rparr>)
          else (Inr (), sortTail rnd (st\<lparr>steps := [], currentStep := 0, array_glob := ns\<rparr>)))"
  by (cases inp) (simp_all add: generateArray_def sortTail_def Let_def split_beta)

lemma generateArray_h_tail:
  "generateArray_h rnd inp st =
     (case inp of
        Blank \<Rightarrow> (Inr (), sortTail_h rnd (randomFill_h rnd
                    ((snd (newArray [] (st\<lparr>steps_h := [], currentStep_h := 0\<rparr>)))\<lparr>array_var := fresh st\<rparr>) 0))
      | Numbers ns \<Rightarrow>
          if list_ex isNaN ns
          then (Inl InvalidInput, snd (newArray ns (st\<lparr>steps_h := [], currentStep_h := 0\<rparr>)))
          else (Inr (), sortTail_h rnd
                    ((snd (newArray ns (st\<lparr>steps_h := [], currentStep_h := 0\<rparr>)))\<lparr>array_var := fresh st\<rparr>)))"
  by (cases inp) (simp_all add: generateArray_h_def sortTail_h_def Let_def split_beta)

lemma sort_tail_sim:
  assumes al: "allocated st1" and e: "steps_h st1 = []"
  shows "globals_of (sortTail_h rnd st1) = sortTail rnd (globals_of st1)
       \<and> allocated (sortTail_h rnd st1)"
proof -
  define st2 where "st2 = saveStep_h (array_var st1) no_highlight st1"
  define st3 where "st3 = snd (newArray (store st2 (array_var st2)) st2)"
  define st4 where "st4 = randomizedQuickSort_h rnd st3 (fresh st2) 0
                            (int (length (store st3 (array_var st3))) - 1)"
  define st5 where "st5 = saveStep_h (array_ref (last (steps_h st4)))
                    \<lparr>pivot = None, compare = None, sorted_flag = Some True\<rparr> st4"
  define g1 where "g1 = globals_of st1"
  define g2 where "g2 = saveStep (array_glob g1) no_highlight g1"
  define g3 where "g3 = snd (randomizedQuickSort rnd g2 (array_glob g2) 0 (int (length (array_glob g2)) - 1))"
  have th: "sortTail_h rnd st1 = st5"
    unfolding sortTail_h_def Let_def split_beta st5_def st4_def st3_def st2_def by simp
  have tv: "sortTail rnd (globals_of st1) = saveStep (array (last (steps g3)))
                            \<lparr>pivot = None, compare = None, sorted_flag = Some True\<rparr> g3"
    unfolding sortTail_def Let_def split_beta g3_def g2_def g1_def by simp
  have gg2: "globals_of st2 = g2" and a2: "allocated st2"
    using saveStep_h_sim[OF al, of "array_var st1" no_highlight]
    by (simp_all add: st2_def g2_def g1_def globals_of_def)
  have gg3: "globals_of st3 = g2" and a3: "allocated st3" and p3: "apart st3 (fresh st2)"
    using newArray_sim[OF a2, of "store st2 (array_var st2)"] gg2 by (simp_all add: st3_def)
  have ag: "array_glob g2 = store st3 (array_var st3)"
    using gg3[symmetric] by (simp add: globals_of_def)
  have w: "store st3 (fresh st2) = array_glob g2"
    using gg2[symmetric] by (simp add: st3_def globals_of_def)
  have q: "randomizedQuickSort rnd (globals_of st3) (store st3 (fresh st2)) 0
               (int (length (store st3 (array_var st3))) - 1)
             = (store st4 (fresh st2), globals_of st4) \<and> allocated st4 \<and> apart st4 (fresh st2)"
    unfolding st4_def
    by (rule randomizedQuickSort_h_sim[OF a3 p3])
  have run: "randomizedQuickSort rnd g2 (array_glob g2) 0 (int (length (array_glob g2)) - 1)
               = (store st4 (fresh st2), globals_of st4)"
    using q unfolding gg3 w ag[symmetric] by (rule conjunct1)
  have a4: "allocated st4" using q by simp
  from run have gg4: "globals_of st4 = g3" by (simp add: g3_def)
  from randomizedQuickSort_frame[OF run] obtain new n where
    "globals_of st4 = g2\<lparr>randomCalls := randomCalls g2 + n, steps := steps g2 @ new\<rparr>" by blast
  then have "steps (globals_of st4) \<noteq> []" by (simp add: g2_def)
  then have "trace_of st4 \<noteq> []" by (simp add: globals_of_def)
  then have ne: "steps_h st4 \<noteq> []" by (auto simp: trace_of_def)
  have "array (last (steps g3)) = array (last (trace_of st4))"
    using gg4[symmetric] by (simp add: globals_of_def)
  also have "\<dots> = store st4 (array_ref (last (steps_h st4)))"
    using ne by (simp add: trace_of_def last_map)
  finally have la: "store st4 (array_ref (last (steps_h st4))) = array (last (steps g3))" by simp
  have "globals_of st5 = saveStep (array (last (steps g3)))
                            \<lparr>pivot = None, compare = None, sorted_flag = Some True\<rparr> g3"
    using saveStep_h_sim(1)[OF a4, of "array_ref (last (steps_h st4))"] la gg4 by (simp add: st5_def)
  moreover have "allocated st5" using saveStep_h_sim(2)[OF a4] by (simp add: st5_def)
  ultimately show ?thesis using th tv by simp
qed

lemma generateArray_h_sim:
  "fst (generateArray_h rnd inp h) = fst (generateArray rnd inp (globals_of h))
   \<and> trace_of (snd (generateArray_h rnd inp h)) = steps (snd (generateArray rnd inp (globals_of h)))
   \<and> distinct (map array_ref (steps_h (snd (generateArray_h rnd inp h))))
   \<and> list_all (\<lambda>s. array_ref s \<noteq> array_var (snd (generateArray_h rnd inp h)))
        (steps_h (snd (generateArray_h rnd inp h)))"
proof -
  define st0 where "st0 = h\<lparr>steps_h := [], currentStep_h := 0\<rparr>"
  have fin: "allocated st1 \<Longrightarrow> steps_h st1 = [] \<Longrightarrow> globals_of st1 = g1 \<Longrightarrow>
      trace_of (sortTail_h rnd st1) = steps (sortTail rnd g1)
      \<and> distinct (map array_ref (steps_h (sortTail_h rnd st1)))
      \<and> list_all (\<lambda>s. array_ref s \<noteq> array_var (sortTail_h rnd st1)) (steps_h (sortTail_h rnd st1))"
    for st1 g1
  proof -
    assume a: "allocated st1" "steps_h st1 = []" "globals_of st1 = g1"
    from sort_tail_sim[OF a(1,2), of rnd]
    have g: "globals_of (sortTail_h rnd st1) = sortTail rnd g1" and al: "allocated (sortTail_h rnd st1)"
      using a(3) by simp_all
    have "steps (globals_of (sortTail_h rnd st1)) = trace_of (sortTail_h rnd st1)"
      by (simp add: globals_of_def)
    with g al show ?thesis by (auto simp: allocated_def list_all_iff)
  qed
  show ?thesis
  proof (cases inp)
    case Blank
    define sta where "sta = (snd (newArray [] st0))\<lparr>array_var := fresh h\<rparr>"
    define st1 where "st1 = randomFill_h rnd sta 0"
    have ea: "steps_h sta = []" by (simp add: sta_def st0_def)
    from randomFill_h_sim[OF ea, of rnd 0]
    have f: "globals_of st1 = randomFill rnd (globals_of sta) 0" "steps_h st1 = []"
      "fresh st1 = fresh sta" "array_var st1 = array_var sta" by (simp_all add: st1_def)
    have ga: "globals_of sta = (globals_of h)\<lparr>steps := [], currentStep := 0, array_glob := []\<rparr>"
      by (simp add: sta_def st0_def globals_of_def trace_of_def)
    have a1: "allocated st1" using f(2,3,4) by (simp add: allocated_def sta_def st0_def)
    from fin[OF a1 f(2) f(1)] show ?thesis
      using Blank by (simp add: generateArray_h_tail generateArray_tail st1_def sta_def st0_def ga[unfolded sta_def st0_def])
  next
    case (Numbers ns)
    show ?thesis
    proof (cases "list_ex isNaN ns")
      case True
      then show ?thesis using Numbers
        by (simp add: generateArray_h_tail generateArray_tail trace_of_def)
    next
      case False
      define st1 where "st1 = (snd (newArray ns st0))\<lparr>array_var := fresh h\<rparr>"
      have e1: "steps_h st1 = []" by (simp add: st1_def st0_def)
      have a1: "allocated st1" by (simp add: allocated_def st1_def st0_def)
      have g1: "globals_of st1 = (globals_of h)\<lparr>steps := [], currentStep := 0, array_glob := ns\<rparr>"
        by (simp add: st1_def st0_def globals_of_def trace_of_def)
      from fin[OF a1 e1 g1] show ?thesis
        using Numbers False by (simp add: generateArray_h_tail generateArray_tail st1_def st0_def)
    qed
  qed
qed

lemma trace_of_after_mutation:
  "list_all (\<lambda>s. array_ref s \<noteq> a) (steps_h st) \<Longrightarrow>
   trace_of (st\<lparr>store := (store st)(a := v)\<rparr>) = trace_of st"
  by (rule trace_of_store_upd[of a st _ v]) simp_all


text \<open>A run over the store, evaluated.\<close>

lemmas heap_eval_simps = generateArray_h_def randomizedQuickSort_h.simps randomizedPartition_h_def
  Math_random_h_def randomIndexOf_def swap_def swap_h_def saveStep_h_def newArray_def
  partitionLoop_h.simps no_highlight_def Let_def initial_heap_def trace_of_def

lemma heap_run_example:
  "trace_of (snd (generateArray_h (\<lambda>_. 0) (Numbers [Finite 2, Finite 1]) initial_heap))
   = [\<lparr>array = [Finite 2, Finite 1], highlight = \<lparr>pivot = None, compare = None, sorted_flag = None\<rparr>\<rparr>,
      \<lparr>array = [Finite 2, Finite 1], highlight = \<lparr>pivot = Some 0, compare = None, sorted_flag = None\<rparr>\<rparr>,
      \<lparr>array = [Finite 1, Finite 2], highlight = \<lparr>pivot = Some 1, compare = Some 0, sorted_flag = None\<rparr>\<rparr>,
      \<lparr>array = [Finite 1, Finite 2], highlight = \<lparr>pivot = Some 1, compare = None, sorted_flag = None\<rparr>\<rparr>,
      \<lparr>array = [Finite 1, Finite 2], highlight = \<lparr>pivot = None, compare = None, sorted_flag = None\<rparr>\<rparr>,
      \<lparr>array = [Finite 1, Finite 2], highlight = \<lparr>pivot = None, compare = None, sorted_flag = Some True\<rparr>\<rparr>]"
  by (simp add: heap_eval_simps)

section \<open>The claims\<close>

text \<open>
  Claim C1. For every finite input sequence of numbers (empty, with duplicates, with
  infinities; no \<open>NaN\<close>), whatever the draws of \<open>Math.random()\<close> in the unit interval,
  \<open>generateArray\<close> succeeds, and the last recorded step holds a permutation of the input
  in non-descending order, with the highlight \<open>{ sorted: true }\<close>.
\<close>

theorem sort_final_snapshot:
  assumes "unit_draws rnd" and "\<forall>x\<in>set ns. \<not> isNaN x"
  shows "\<exists>g'. generateArray rnd (Numbers ns) g = (Inr (), g') \<and> steps g' \<noteq> []
    \<and> mset (array (last (steps g'))) = mset ns
    \<and> sorted_wrt js_le (array (last (steps g')))
    \<and> highlight (last (steps g')) = \<lparr>pivot = None, compare = None, sorted_flag = Some True\<rparr>"
proof -
  have ok: "\<not> list_ex isNaN ns" using assms(2) by (simp add: list_ex_iff)
  from generateArray_steps[OF ok, of rnd g] obtain arr' st3 new where
    run: "randomizedQuickSort rnd
        (saveStep ns no_highlight (g\<lparr>steps := [], currentStep := 0, array_glob := ns\<rparr>))
        ns 0 (int (length ns) - 1) = (arr', st3)"
    and gen: "generateArray rnd (Numbers ns) g =
        (Inr (), st3\<lparr>steps := \<lparr>array = ns, highlight = no_highlight\<rparr> # new @
           [\<lparr>array = arr', highlight = \<lparr>pivot = None, compare = None, sorted_flag = Some True\<rparr>\<rparr>]\<rparr>)"
    and perm: "unit_draws rnd \<longrightarrow>
         length arr' = length ns \<and> mset arr' = mset ns \<and> (\<forall>x\<in>set new. mset (array x) = mset ns)"
    by blast
  have len: "length arr' = length ns" and ms: "mset arr' = mset ns" using perm assms(1) by simp_all
  have "\<forall>a b. 0 \<le> a \<and> a \<le> b \<and> b \<le> int (length ns) - 1 \<longrightarrow> js_le (arr' ! nat a) (arr' ! nat b)"
    using randomizedQuickSort_post[OF run assms(1) _ _ assms(2), of "\<lambda>_. True"] by simp
  then have "sorted_wrt js_le arr'"
    unfolding sorted_wrt_iff_nth_less
  proof (intro allI impI)
    fix i j assume h: "\<forall>a b. 0 \<le> a \<and> a \<le> b \<and> b \<le> int (length ns) - 1 \<longrightarrow> js_le (arr' ! nat a) (arr' ! nat b)"
      and "i < j" "j < length arr'"
    then have "0 \<le> int i \<and> int i \<le> int j \<and> int j \<le> int (length ns) - 1" using len by simp
    with h have "js_le (arr' ! nat (int i)) (arr' ! nat (int j))" by blast
    then show "js_le (arr' ! i) (arr' ! j)" by simp
  qed
  with gen ms show ?thesis by simp
qed

theorem sort_final_snapshot_witness:
  "\<exists>g'. generateArray (\<lambda>_. 1 / 2) (Numbers [Finite 3, Finite 1, Finite 2]) initial_globals = (Inr (), g')
    \<and> steps g' \<noteq> []
    \<and> mset (array (last (steps g'))) = mset [Finite 3, Finite 1, Finite 2]
    \<and> sorted_wrt js_le (array (last (steps g')))
    \<and> highlight (last (steps g')) = \<lparr>pivot = None, compare = None, sorted_flag = Some True\<rparr>"
  using sort_final_snapshot[of "\<lambda>_. 1 / 2" "[Finite 3, Finite 1, Finite 2]" initial_globals]
  by (simp add: unit_draws_def)


text \<open>
  Claim C2 as stated fails: an array with a non-finite entry is not refused. The check of
  the source is \<open>numbers.some(isNaN)\<close>, and \<open>isNaN(Infinity)\<close> is false: on the input
  \<open>[Infinity]\<close> the run succeeds and records two steps.
\<close>

theorem invalid_input_counterexample:
  "list_ex (\<lambda>x. \<not> isFinite x) [Infinity]
   \<and> fst (generateArray (\<lambda>_. 0) (Numbers [Infinity]) initial_globals) = Inr ()
   \<and> length (steps (snd (generateArray (\<lambda>_. 0) (Numbers [Infinity]) initial_globals))) = 2"
  by (simp add: eval_simps)

text \<open>
  Claim C2, amended. \<open>generateArray\<close> fails with \<open>InvalidInput\<close> exactly when the array has a
  \<open>NaN\<close> entry (what \<open>Number\<close> makes of a text that is not a numeric literal); the failure
  comes before anything is recorded: the steps are empty, and nothing else of the globals
  changes but the reset of \<open>currentStep\<close>.
\<close>

theorem nan_input_rejected:
  "(fst (generateArray rnd (Numbers ns) g) = Inl InvalidInput) = (\<exists>x\<in>set ns. isNaN x)
   \<and> ((\<exists>x\<in>set ns. isNaN x) \<longrightarrow>
        snd (generateArray rnd (Numbers ns) g) = g\<lparr>steps := [], currentStep := 0\<rparr>
        \<and> steps (snd (generateArray rnd (Numbers ns) g)) = [])"
proof (cases "list_ex isNaN ns")
  case True
  then show ?thesis using generateArray_invalid[OF True, of rnd g] by (simp add: list_ex_iff)
next
  case False
  from generateArray_steps[OF False, of rnd g] obtain g' where
    "generateArray rnd (Numbers ns) g = (Inr (), g')" by blast
  then show ?thesis using False by (simp add: list_ex_iff)
qed

theorem nan_input_rejected_witness:
  "fst (generateArray (\<lambda>_. 0) (Numbers [Finite 1, NaN]) initial_globals) = Inl InvalidInput
   \<and> steps (snd (generateArray (\<lambda>_. 0) (Numbers [Finite 1, NaN]) initial_globals)) = []"
  using nan_input_rejected[of "\<lambda>_. 0" "[Finite 1, NaN]" initial_globals] by simp

text \<open>
  Claim C4. For a valid input of length \<open>n\<close>, the recorded trace has exactly 2 steps when
  \<open>n \<le> 1\<close>, and more than 2 (a list, so finitely many) when \<open>n \<ge> 2\<close>.
\<close>

theorem trace_length:
  assumes "\<forall>x\<in>set ns. \<not> isNaN x"
  shows "(length ns \<le> 1 \<longrightarrow> length (steps (snd (generateArray rnd (Numbers ns) g))) = 2)
       \<and> (2 \<le> length ns \<longrightarrow> 2 < length (steps (snd (generateArray rnd (Numbers ns) g))))"
proof -
  have ok: "\<not> list_ex isNaN ns" using assms by (simp add: list_ex_iff)
  from generateArray_steps[OF ok, of rnd g] obtain arr' st3 new where
    gen: "generateArray rnd (Numbers ns) g =
        (Inr (), st3\<lparr>steps := \<lparr>array = ns, highlight = no_highlight\<rparr> # new @
           [\<lparr>array = arr', highlight = \<lparr>pivot = None, compare = None, sorted_flag = Some True\<rparr>\<rparr>]\<rparr>)"
    and n: "if 1 < length ns then 3 \<le> length new \<and> array (last new) = arr' else new = [] \<and> arr' = ns"
    by blast
  show ?thesis using gen n by (auto split: if_splits)
qed

theorem trace_length_witness:
  "length (steps (snd (generateArray (\<lambda>_. 1 / 2) (Numbers [Finite 5]) initial_globals))) = 2
   \<and> 2 < length (steps (snd (generateArray (\<lambda>_. 1 / 2) (Numbers [Finite 3, Finite 1, Finite 2])
                                initial_globals)))"
  using trace_length[of "[Finite 5]" "\<lambda>_. 1 / 2" initial_globals]
    trace_length[of "[Finite 3, Finite 1, Finite 2]" "\<lambda>_. 1 / 2" initial_globals]
  by simp

text \<open>
  Claim C5. For every valid input, the first recorded step holds the input itself, same
  elements in the same order, and the empty highlight.
\<close>

theorem trace_head:
  assumes "\<forall>x\<in>set ns. \<not> isNaN x"
  shows "steps (snd (generateArray rnd (Numbers ns) g)) \<noteq> []
       \<and> hd (steps (snd (generateArray rnd (Numbers ns) g)))
          = \<lparr>array = ns, highlight = \<lparr>pivot = None, compare = None, sorted_flag = None\<rparr>\<rparr>"
proof -
  have ok: "\<not> list_ex isNaN ns" using assms by (simp add: list_ex_iff)
  from generateArray_steps[OF ok, of rnd g] obtain arr' st3 new where
    gen: "generateArray rnd (Numbers ns) g =
        (Inr (), st3\<lparr>steps := \<lparr>array = ns, highlight = no_highlight\<rparr> # new @
           [\<lparr>array = arr', highlight = \<lparr>pivot = None, compare = None, sorted_flag = Some True\<rparr>\<rparr>]\<rparr>)"
    by blast
  show ?thesis using gen by (simp add: no_highlight_def)
qed

theorem trace_head_witness:
  "steps (snd (generateArray (\<lambda>_. 1 / 2) (Numbers [Finite 3, Finite 1, Finite 2]) initial_globals)) \<noteq> []
   \<and> hd (steps (snd (generateArray (\<lambda>_. 1 / 2) (Numbers [Finite 3, Finite 1, Finite 2]) initial_globals)))
      = \<lparr>array = [Finite 3, Finite 1, Finite 2],
         highlight = \<lparr>pivot = None, compare = None, sorted_flag = None\<rparr>\<rparr>"
  using trace_head[of "[Finite 3, Finite 1, Finite 2]" "\<lambda>_. 1 / 2" initial_globals] by simp

text \<open>
  Claim C10. Every recorded step, not only the last, holds a permutation of the input, and
  so an array of the input's length.
\<close>

theorem every_snapshot_permutation:
  assumes "unit_draws rnd" and "\<forall>x\<in>set ns. \<not> isNaN x"
  shows "\<forall>s\<in>set (steps (snd (generateArray rnd (Numbers ns) g))).
           mset (array s) = mset ns \<and> length (array s) = length ns"
proof -
  have ok: "\<not> list_ex isNaN ns" using assms(2) by (simp add: list_ex_iff)
  from generateArray_steps[OF ok, of rnd g] obtain arr' st3 new where
    gen: "generateArray rnd (Numbers ns) g =
        (Inr (), st3\<lparr>steps := \<lparr>array = ns, highlight = no_highlight\<rparr> # new @
           [\<lparr>array = arr', highlight = \<lparr>pivot = None, compare = None, sorted_flag = Some True\<rparr>\<rparr>]\<rparr>)"
    and perm: "unit_draws rnd \<longrightarrow>
         length arr' = length ns \<and> mset arr' = mset ns \<and> (\<forall>x\<in>set new. mset (array x) = mset ns)"
    by blast
  have "\<forall>s\<in>set (steps (snd (generateArray rnd (Numbers ns) g))). mset (array s) = mset ns"
    using gen perm assms(1) by auto
  then show ?thesis using mset_eq_length by blast
qed

theorem every_snapshot_permutation_witness:
  "list_all (\<lambda>s. mset (array s) = mset [Finite 3, Finite 1, Finite 2] \<and> length (array s) = 3)
     (steps (snd (generateArray (\<lambda>_. 1 / 2) (Numbers [Finite 3, Finite 1, Finite 2]) initial_globals)))"
  using every_snapshot_permutation[of "\<lambda>_. 1 / 2" "[Finite 3, Finite 1, Finite 2]" initial_globals]
  by (simp add: unit_draws_def list_all_iff)

text \<open>
  Claim C3. A call of \<open>randomizedPartition\<close> on \<open>[low, high]\<close> with \<open>low < high\<close> picks an
  index \<open>randomIndex\<close> of the subrange and appends exactly these steps, in this order. First
  one step with the pivot at \<open>randomIndex\<close>, holding the array as it was passed, before the
  pivot is moved. Then the steps of the scan on the array with the pivot moved to \<open>high\<close>:
  for each \<open>j\<close> from \<open>low\<close> to \<open>high - 1\<close>, ascending, one step with the pivot at \<open>high\<close> and
  the comparison at \<open>j\<close>, holding the array as it stands before the comparison, followed
  exactly when \<open>arr[j] < pivotValue\<close> by one step with the pivot at \<open>high\<close> alone, holding the
  array after \<open>arr[i]\<close> and \<open>arr[j]\<close> are swapped (\<open>scanSteps\<close>; the element compared at \<open>j\<close>
  is the one that stood there when the scan began, \<open>scanHighlights\<close>). Last one step with no
  highlight, holding the returned array: the array of the last step of the scan with the
  pivot swapped from \<open>high\<close> into the returned position, which is \<open>low\<close> plus the number of
  swaps of the scan.
\<close>

theorem partition_snapshot_order:
  assumes "randomizedPartition rnd st arr low high = (p, arr', st')"
    and "0 \<le> low" "low < high" "high < int (length arr)" "unit_draws rnd"
  shows "\<exists>randomIndex. low \<le> randomIndex \<and> randomIndex \<le> high \<and>
          (let arr1 = swap arr randomIndex high;
               pivotVal = arr1 ! nat high;
               scan = scanSteps pivotVal high (low - 1) arr1 [low..high - 1]
           in steps st' = steps st @
                \<lparr>array = arr,
                  highlight = \<lparr>pivot = Some randomIndex, compare = None, sorted_flag = None\<rparr>\<rparr> #
                scan @
                [\<lparr>array = arr', highlight = \<lparr>pivot = None, compare = None, sorted_flag = None\<rparr>\<rparr>]
              \<and> map highlight scan = scanHighlights arr1 pivotVal low high
              \<and> p = low + int (length (filter (\<lambda>s. compare (highlight s) = None) scan))
              \<and> arr' = swap (array (last scan)) p high
              \<and> arr' ! nat p = pivotVal)"
proof -
  define r where "r = randomIndexOf (rnd (randomCalls st)) low high"
  define arr1 where "arr1 = swap arr r high"
  define pv where "pv = arr1 ! nat high"
  define scan where "scan = scanSteps pv high (low - 1) arr1 [low..high - 1]"
  let ?h = "\<lparr>pivot = Some r, compare = None, sorted_flag = None\<rparr>"
  define st1 where "st1 = saveStep arr ?h (st\<lparr>randomCalls := randomCalls st + 1\<rparr>)"
  have ri: "low \<le> r" "r \<le> high"
    using randomIndex_range[of "rnd (randomCalls st)" low high] assms(3,5)
    by (auto simp: unit_draws_def r_def)
  have rr: "0 \<le> r" "r < int (length arr)" "0 \<le> high" "high < int (length arr)"
    using ri assms(2,3,4) by auto
  from randomizedPartition_unfold[OF assms(1)] obtain i arr2 st2 where
    L: "partitionLoop st1 arr1 pv high (low - 1) low = (i, arr2, st2)"
    and p: "p = i + 1" and a: "arr' = swap arr2 (i + 1) high"
    and s: "st' = saveStep arr' no_highlight st2"
    unfolding r_def arr1_def st1_def pv_def by blast
  from partitionLoop_scanSteps[OF L]
  have t1: "steps st2 = steps st1 @ scan"
    and t2: "i = low - 1 + int (length (filter (\<lambda>s. compare (highlight s) = None) scan))"
    and t3: "array (last scan) = arr2"
    using assms(3) by (simp_all add: scan_def)
  have c1: "steps st' = steps st @ \<lparr>array = arr, highlight = ?h\<rparr> # scan @
                [\<lparr>array = arr', highlight = \<lparr>pivot = None, compare = None, sorted_flag = None\<rparr>\<rparr>]"
    using s t1 by (simp add: st1_def no_highlight_def)
  have b: "0 \<le> low - 1 + 1" "low - 1 < low" using assms(2) by simp_all
  from partitionLoop_trace[OF L b] obtain new where
    n: "steps st2 = steps st1 @ new" "map highlight new = scanHighlights arr1 pv low high"
    by blast
  from n(1) t1 have "new = scan" by simp
  with n(2) have c2: "map highlight scan = scanHighlights arr1 pv low high" by simp
  have c3: "p = low + int (length (filter (\<lambda>s. compare (highlight s) = None) scan))"
    using p t2 by simp
  have c4: "arr' = swap (array (last scan)) p high" using a p t3 by simp
  have "mset arr' = mset arr \<and> low \<le> p \<and> p \<le> high \<and> arr' ! nat p = arr ! nat r"
    using randomizedPartition_post[OF assms(1,2,3,4) ri[unfolded r_def], of "\<lambda>_. True"]
    unfolding r_def by blast
  then have pv0: "arr' ! nat p = arr ! nat r" by simp
  have "arr1 ! nat high = arr ! nat r"
    unfolding arr1_def using swap_nth[OF rr rr(3)] by simp
  with pv0 have c5: "arr' ! nat p = pv" by (simp add: pv_def)
  have "low \<le> r \<and> r \<le> high \<and>
          (let arr1 = swap arr r high;
               pivotVal = arr1 ! nat high;
               scan = scanSteps pivotVal high (low - 1) arr1 [low..high - 1]
           in steps st' = steps st @
                \<lparr>array = arr, highlight = \<lparr>pivot = Some r, compare = None, sorted_flag = None\<rparr>\<rparr> #
                scan @
                [\<lparr>array = arr', highlight = \<lparr>pivot = None, compare = None, sorted_flag = None\<rparr>\<rparr>]
              \<and> map highlight scan = scanHighlights arr1 pivotVal low high
              \<and> p = low + int (length (filter (\<lambda>s. compare (highlight s) = None) scan))
              \<and> arr' = swap (array (last scan)) p high
              \<and> arr' ! nat p = pivotVal)"
    unfolding Let_def arr1_def[symmetric] pv_def[symmetric] scan_def[symmetric]
    using ri c1 c2 c3 c4 c5 by (intro conjI)
  then show ?thesis by (rule exI)
qed

theorem partition_snapshot_order_witness:
  "(\<exists>randomIndex. 0 \<le> randomIndex \<and> randomIndex \<le> 2 \<and>
      steps (snd (snd (randomizedPartition (\<lambda>_. 9 / 10) initial_globals
                         [Finite 3, Finite 1, Finite 2] 0 2))) =
        \<lparr>array = [Finite 3, Finite 1, Finite 2],
          highlight = \<lparr>pivot = Some randomIndex, compare = None, sorted_flag = None\<rparr>\<rparr> #
        scanSteps (swap [Finite 3, Finite 1, Finite 2] randomIndex 2 ! nat 2) 2 (- 1)
          (swap [Finite 3, Finite 1, Finite 2] randomIndex 2) [0, 1] @
        [\<lparr>array = fst (snd (randomizedPartition (\<lambda>_. 9 / 10) initial_globals
                              [Finite 3, Finite 1, Finite 2] 0 2)),
           highlight = \<lparr>pivot = None, compare = None, sorted_flag = None\<rparr>\<rparr>])
   \<and> steps (snd (snd (randomizedPartition (\<lambda>_. 9 / 10) initial_globals
                         [Finite 3, Finite 1, Finite 2] 0 2))) =
       [\<lparr>array = [Finite 3, Finite 1, Finite 2],
          highlight = \<lparr>pivot = Some 2, compare = None, sorted_flag = None\<rparr>\<rparr>,
        \<lparr>array = [Finite 3, Finite 1, Finite 2],
          highlight = \<lparr>pivot = Some 2, compare = Some 0, sorted_flag = None\<rparr>\<rparr>,
        \<lparr>array = [Finite 3, Finite 1, Finite 2],
          highlight = \<lparr>pivot = Some 2, compare = Some 1, sorted_flag = None\<rparr>\<rparr>,
        \<lparr>array = [Finite 1, Finite 3, Finite 2],
          highlight = \<lparr>pivot = Some 2, compare = None, sorted_flag = None\<rparr>\<rparr>,
        \<lparr>array = [Finite 1, Finite 2, Finite 3],
          highlight = \<lparr>pivot = None, compare = None, sorted_flag = None\<rparr>\<rparr>]"
proof -
  let ?R = "randomizedPartition (\<lambda>_. 9 / 10) initial_globals [Finite 3, Finite 1, Finite 2] 0 2"
  have run: "?R = (fst ?R, fst (snd ?R), snd (snd ?R))" by simp
  have u: "unit_draws (\<lambda>_. 9 / 10)" by (simp add: unit_draws_def)
  have up: "[0..2 - 1] = [0, 1::int]" by (simp add: upto.simps)
  from partition_snapshot_order[OF run _ _ _ u] obtain ri where
    r: "0 \<le> ri" "ri \<le> 2"
    and t: "steps (snd (snd ?R)) = steps initial_globals @
        \<lparr>array = [Finite 3, Finite 1, Finite 2],
          highlight = \<lparr>pivot = Some ri, compare = None, sorted_flag = None\<rparr>\<rparr> #
        scanSteps (swap [Finite 3, Finite 1, Finite 2] ri 2 ! nat 2) 2 (0 - 1)
          (swap [Finite 3, Finite 1, Finite 2] ri 2) [0..2 - 1] @
        [\<lparr>array = fst (snd ?R), highlight = \<lparr>pivot = None, compare = None, sorted_flag = None\<rparr>\<rparr>]"
    unfolding Let_def by auto
  have a: "\<exists>randomIndex. 0 \<le> randomIndex \<and> randomIndex \<le> 2 \<and>
      steps (snd (snd ?R)) =
        \<lparr>array = [Finite 3, Finite 1, Finite 2],
          highlight = \<lparr>pivot = Some randomIndex, compare = None, sorted_flag = None\<rparr>\<rparr> #
        scanSteps (swap [Finite 3, Finite 1, Finite 2] randomIndex 2 ! nat 2) 2 (- 1)
          (swap [Finite 3, Finite 1, Finite 2] randomIndex 2) [0, 1] @
        [\<lparr>array = fst (snd ?R), highlight = \<lparr>pivot = None, compare = None, sorted_flag = None\<rparr>\<rparr>]"
    using r t unfolding up by (intro exI[of _ ri]) (simp add: initial_globals_def)
  have b: "steps (snd (snd ?R)) =
       [\<lparr>array = [Finite 3, Finite 1, Finite 2],
          highlight = \<lparr>pivot = Some 2, compare = None, sorted_flag = None\<rparr>\<rparr>,
        \<lparr>array = [Finite 3, Finite 1, Finite 2],
          highlight = \<lparr>pivot = Some 2, compare = Some 0, sorted_flag = None\<rparr>\<rparr>,
        \<lparr>array = [Finite 3, Finite 1, Finite 2],
          highlight = \<lparr>pivot = Some 2, compare = Some 1, sorted_flag = None\<rparr>\<rparr>,
        \<lparr>array = [Finite 1, Finite 3, Finite 2],
          highlight = \<lparr>pivot = Some 2, compare = None, sorted_flag = None\<rparr>\<rparr>,
        \<lparr>array = [Finite 1, Finite 2, Finite 3],
          highlight = \<lparr>pivot = None, compare = None, sorted_flag = None\<rparr>\<rparr>]"
    by (simp add: eval_simps)
  from a b show ?thesis by (rule conjI)
qed

text \<open>
  Claim C6. In the scan, an element equal to the pivot value is not swapped: the iteration
  records the comparison step only, leaves the array and the boundary \<open>i\<close> as they are, and
  goes on with \<open>j + 1\<close>. After the partition, every position of the subrange that holds the
  pivot value is at or right of the returned pivot index.
\<close>

theorem equal_to_pivot_not_swapped:
  "(j < high \<and> arr ! nat j = pivotVal \<longrightarrow>
      partitionLoop st arr pivotVal high i j =
      partitionLoop (saveStep arr \<lparr>pivot = Some high, compare = Some j, sorted_flag = None\<rparr> st)
        arr pivotVal high i (j + 1))
   \<and> (randomizedPartition rnd st0 arr0 low high = (p, arr', st') \<and> 0 \<le> low \<and> low < high
        \<and> high < int (length arr0) \<and> unit_draws rnd \<longrightarrow>
      (\<forall>k. low \<le> k \<and> k \<le> high \<and> arr' ! nat k = arr' ! nat p \<longrightarrow> p \<le> k))"
proof (intro conjI impI)
  assume "j < high \<and> arr ! nat j = pivotVal"
  then show "partitionLoop st arr pivotVal high i j =
      partitionLoop (saveStep arr \<lparr>pivot = Some high, compare = Some j, sorted_flag = None\<rparr> st)
        arr pivotVal high i (j + 1)"
    by (simp add: partitionLoop.simps[of st arr pivotVal high i j])
next
  assume h: "randomizedPartition rnd st0 arr0 low high = (p, arr', st') \<and> 0 \<le> low \<and> low < high
        \<and> high < int (length arr0) \<and> unit_draws rnd"
  then have run: "randomizedPartition rnd st0 arr0 low high = (p, arr', st')"
    and b: "0 \<le> low" "low < high" "high < int (length arr0)" by simp_all
  have ri: "low \<le> randomIndexOf (rnd (randomCalls st0)) low high"
           "randomIndexOf (rnd (randomCalls st0)) low high \<le> high"
    using randomIndex_range[of "rnd (randomCalls st0)" low high] h
    by (auto simp: unit_draws_def)
  have lt: "\<forall>k. low \<le> k \<and> k < p \<longrightarrow> js_lt (arr' ! nat k) (arr' ! nat p)"
    using randomizedPartition_post[OF run b ri, of "\<lambda>_. True"] by blast
  show "\<forall>k. low \<le> k \<and> k \<le> high \<and> arr' ! nat k = arr' ! nat p \<longrightarrow> p \<le> k"
  proof (intro allI impI)
    fix k assume k: "low \<le> k \<and> k \<le> high \<and> arr' ! nat k = arr' ! nat p"
    show "p \<le> k"
    proof (rule ccontr)
      assume "\<not> p \<le> k"
      then have "low \<le> k \<and> k < p" using k by simp
      with lt have "js_lt (arr' ! nat k) (arr' ! nat p)" by blast
      then have "js_lt (arr' ! nat p) (arr' ! nat p)" using k by simp
      then show False by simp
    qed
  qed
qed

theorem equal_to_pivot_not_swapped_witness:
  "partitionLoop initial_globals [Finite 2, Finite 2, Finite 2] (Finite 2) 2 (- 1) 0 =
     partitionLoop (saveStep [Finite 2, Finite 2, Finite 2]
                      \<lparr>pivot = Some 2, compare = Some 0, sorted_flag = None\<rparr> initial_globals)
       [Finite 2, Finite 2, Finite 2] (Finite 2) 2 (- 1) 1
   \<and> list_all (\<lambda>k. [Finite 1, Finite 2, Finite 2] ! nat k = [Finite 1, Finite 2, Finite 2] ! nat 1
                     \<longrightarrow> 1 \<le> k) [0, 1, 2]"
proof -
  let ?R = "randomizedPartition (\<lambda>_. 0) initial_globals [Finite 2, Finite 1, Finite 2] 0 2"
  have run: "?R = (1, [Finite 1, Finite 2, Finite 2], snd (snd ?R))"
    by (simp add: eval_simps prod_eq_iff)
  have u: "unit_draws (\<lambda>_. 0)" by (simp add: unit_draws_def)
  from equal_to_pivot_not_swapped[of 0 2 "[Finite 2, Finite 2, Finite 2]" "Finite 2" initial_globals "- 1"
      "\<lambda>_. 0" initial_globals "[Finite 2, Finite 1, Finite 2]" 0 1 "[Finite 1, Finite 2, Finite 2]"
      "snd (snd ?R)"] run u
  have a: "partitionLoop initial_globals [Finite 2, Finite 2, Finite 2] (Finite 2) 2 (- 1) 0 =
     partitionLoop (saveStep [Finite 2, Finite 2, Finite 2]
                      \<lparr>pivot = Some 2, compare = Some 0, sorted_flag = None\<rparr> initial_globals)
       [Finite 2, Finite 2, Finite 2] (Finite 2) 2 (- 1) 1"
    and b: "\<forall>k. 0 \<le> k \<and> k \<le> 2 \<and> [Finite 1, Finite 2, Finite 2] ! nat k = [Finite 1, Finite 2, Finite 2] ! nat 1
              \<longrightarrow> 1 \<le> k"
    by simp_all
  from b have "list_all (\<lambda>k. [Finite 1, Finite 2, Finite 2] ! nat k = [Finite 1, Finite 2, Finite 2] ! nat 1
                     \<longrightarrow> 1 \<le> k) [0, 1, 2]"
    by simp
  with a show ?thesis by simp
qed

text \<open>
  Claim C7. Whatever the draws, a call of \<open>randomizedPartition\<close> on \<open>[low, high]\<close> with
  \<open>low < high\<close> returns an index within \<open>[low, high]\<close>, so both recursive subranges are
  strictly shorter than \<open>[low, high]\<close>; \<open>randomizedQuickSort\<close> returns (it is a total
  function, by the termination proof above), after at most \<open>high - low\<close> calls of
  \<open>Math.random()\<close>, one per partition.
\<close>

theorem quicksort_terminates:
  assumes "low < high" and "randomizedPartition rnd st arr low high = (p, arr1, st1)"
  shows "low \<le> p \<and> p \<le> high
       \<and> nat ((p - 1) - low + 1) < nat (high - low + 1)
       \<and> nat (high - (p + 1) + 1) < nat (high - low + 1)
       \<and> (\<exists>arr' st'. randomizedQuickSort rnd st arr low high = (arr', st')
            \<and> randomCalls st \<le> randomCalls st'
            \<and> randomCalls st' \<le> randomCalls st + nat (high - low))"
proof -
  have pb: "low \<le> p \<and> p \<le> high" using randomizedPartition_pi_bounds[OF assms(2)] assms(1) by simp
  obtain arr' st' where run: "randomizedQuickSort rnd st arr low high = (arr', st')"
    by (metis surj_pair)
  from randomizedQuickSort_frame[OF run] obtain new n where
    "st' = st\<lparr>randomCalls := randomCalls st + n, steps := steps st @ new\<rparr>" "n \<le> nat (high - low)"
    by blast
  then have "randomCalls st \<le> randomCalls st' \<and> randomCalls st' \<le> randomCalls st + nat (high - low)"
    by simp
  with run pb assms(1) show ?thesis by auto
qed

theorem quicksort_terminates_witness:
  "\<exists>arr' st'. randomizedQuickSort (\<lambda>_. 0) initial_globals [Finite 2, Finite 1, Finite 2] 0 2 = (arr', st')
      \<and> randomCalls initial_globals \<le> randomCalls st'
      \<and> randomCalls st' \<le> randomCalls initial_globals + nat (2 - 0)"
proof -
  let ?R = "randomizedPartition (\<lambda>_. 0) initial_globals [Finite 2, Finite 1, Finite 2] 0 2"
  have run: "?R = (fst ?R, fst (snd ?R), snd (snd ?R))" by simp
  have "(0::int) < 2" by simp
  from quicksort_terminates[OF this run] show ?thesis by simp
qed

text \<open>
  Claim C9. Two runs on the same numbers that choose the same sequence of pivot indices,
  whatever their draws and their globals before the run, end alike and record the same steps.
\<close>

theorem same_pivots_same_trace:
  assumes "chosenPivots rnd1 ns g1 = chosenPivots rnd2 ns g2"
  shows "fst (generateArray rnd1 (Numbers ns) g1) = fst (generateArray rnd2 (Numbers ns) g2)
       \<and> steps (snd (generateArray rnd1 (Numbers ns) g1)) = steps (snd (generateArray rnd2 (Numbers ns) g2))"
proof (cases "list_ex isNaN ns")
  case True
  then show ?thesis by (simp add: generateArray_invalid)
next
  case False
  let ?s1 = "saveStep ns no_highlight (g1\<lparr>steps := [], currentStep := 0, array_glob := ns\<rparr>)"
  let ?s2 = "saveStep ns no_highlight (g2\<lparr>steps := [], currentStep := 0, array_glob := ns\<rparr>)"
  let ?fin = "\<lambda>a. \<lparr>array = a, highlight = \<lparr>pivot = None, compare = None, sorted_flag = Some True\<rparr>\<rparr>"
  from generateArray_steps[OF False, of rnd1 g1] obtain arr1 st1 new1 where
    run1: "randomizedQuickSort rnd1 ?s1 ns 0 (int (length ns) - 1) = (arr1, st1)"
    and gen1: "generateArray rnd1 (Numbers ns) g1 =
        (Inr (), st1\<lparr>steps := \<lparr>array = ns, highlight = no_highlight\<rparr> # new1 @ [?fin arr1]\<rparr>)"
    and s1: "steps st1 = \<lparr>array = ns, highlight = no_highlight\<rparr> # new1"
    by blast
  from generateArray_steps[OF False, of rnd2 g2] obtain arr2 st2 new2 where
    run2: "randomizedQuickSort rnd2 ?s2 ns 0 (int (length ns) - 1) = (arr2, st2)"
    and gen2: "generateArray rnd2 (Numbers ns) g2 =
        (Inr (), st2\<lparr>steps := \<lparr>array = ns, highlight = no_highlight\<rparr> # new2 @ [?fin arr2]\<rparr>)"
    and s2: "steps st2 = \<lparr>array = ns, highlight = no_highlight\<rparr> # new2"
    by blast
  have logs: "pivotChoices rnd1 ?s1 ns 0 (int (length ns) - 1) @ []
            = pivotChoices rnd2 ?s2 ns 0 (int (length ns) - 1) @ []"
    using assms by (simp add: chosenPivots_def)
  from randomizedQuickSort_lockstep[OF run1 logs] obtain new n where
    a: "st1 = ?s1\<lparr>randomCalls := randomCalls ?s1 + n, steps := steps ?s1 @ new\<rparr>"
    and b: "randomizedQuickSort rnd2 ?s2 ns 0 (int (length ns) - 1)
        = (arr1, ?s2\<lparr>randomCalls := randomCalls ?s2 + n, steps := steps ?s2 @ new\<rparr>)"
    by blast
  from b run2 have e: "arr2 = arr1" "st2 = ?s2\<lparr>randomCalls := randomCalls ?s2 + n, steps := steps ?s2 @ new\<rparr>"
    by simp_all
  have "new1 = new" using a s1 by simp
  moreover have "new2 = new" using e(2) s2 by simp
  ultimately show ?thesis using gen1 gen2 e(1) by simp
qed

theorem same_pivots_same_trace_witness:
  "steps (snd (generateArray (\<lambda>_. 1 / 2) (Numbers [Finite 3, Finite 1, Finite 2]) initial_globals))
   = steps (snd (generateArray (\<lambda>_. 3 / 5) (Numbers [Finite 3, Finite 1, Finite 2]) initial_globals))"
proof -
  have "chosenPivots (\<lambda>_. 1 / 2) [Finite 3, Finite 1, Finite 2] initial_globals
      = chosenPivots (\<lambda>_. 3 / 5) [Finite 3, Finite 1, Finite 2] initial_globals"
    by (simp add: eval_simps)
  from same_pivots_same_trace[OF this] show ?thesis by simp
qed

text \<open>
  Claim C8. A recorded step is not reached by a later mutation of the live array. Over the
  store: \<open>saveStep\<close> on an array that is an object of its own appends a step holding the
  elements the array has at that moment, and no later write into the array changes what the
  steps hold; through a whole run of \<open>randomizedQuickSort\<close> on such an array the steps recorded
  before stay as they were. After \<open>generateArray\<close> returns, the steps hold exactly the arrays
  of the first model (the elements at the moment of each recording), no two steps share an
  array object, and writing anything into the object of \<open>array\<close> changes no step.
\<close>

theorem snapshots_independent:
  "(allocated st \<and> apart st arr \<longrightarrow>
      trace_of (saveStep_h arr hl st) = trace_of st @ [\<lparr>array = store st arr, highlight = hl\<rparr>]
      \<and> (\<forall>v. trace_of ((saveStep_h arr hl st)\<lparr>store := (store (saveStep_h arr hl st))(arr := v)\<rparr>)
              = trace_of (saveStep_h arr hl st))
      \<and> (\<exists>new. trace_of (randomizedQuickSort_h rnd st arr low high) = trace_of st @ new))
   \<and> (let h' = snd (generateArray_h rnd inp h) in
        fst (generateArray_h rnd inp h) = fst (generateArray rnd inp (globals_of h))
      \<and> trace_of h' = steps (snd (generateArray rnd inp (globals_of h)))
      \<and> distinct (map array_ref (steps_h h'))
      \<and> (\<forall>v. trace_of (h'\<lparr>store := (store h')(array_var h' := v)\<rparr>) = trace_of h'))"
proof (intro conjI impI)
  assume a: "allocated st \<and> apart st arr"
  then have al: "allocated st" and ap: "apart st arr" by simp_all
  have "steps (globals_of (saveStep_h arr hl st)) = steps (saveStep (store st arr) hl (globals_of st))"
    using saveStep_h_sim(1)[OF al, of arr hl] by simp
  then show "trace_of (saveStep_h arr hl st) = trace_of st @ [\<lparr>array = store st arr, highlight = hl\<rparr>]"
    by (simp add: globals_of_def)
  have "apart (saveStep_h arr hl st) arr" using saveStep_h_apart[OF ap, of arr hl] by simp
  then have "list_all (\<lambda>s. array_ref s \<noteq> arr) (steps_h (saveStep_h arr hl st))"
    by (simp add: apart_def)
  then show "\<forall>v. trace_of ((saveStep_h arr hl st)\<lparr>store := (store (saveStep_h arr hl st))(arr := v)\<rparr>)
              = trace_of (saveStep_h arr hl st)"
    using trace_of_after_mutation by blast
  let ?st' = "randomizedQuickSort_h rnd st arr low high"
  have run: "randomizedQuickSort rnd (globals_of st) (store st arr) low high
           = (store ?st' arr, globals_of ?st')"
    using randomizedQuickSort_h_sim[OF al ap, of rnd low high] by (rule conjunct1)
  from randomizedQuickSort_frame[OF run] obtain new n where
    "globals_of ?st' = (globals_of st)\<lparr>randomCalls := randomCalls (globals_of st) + n,
        steps := steps (globals_of st) @ new\<rparr>" by blast
  then have "steps (globals_of ?st') = steps (globals_of st) @ new" by simp
  then have "trace_of ?st' = trace_of st @ new" by (simp add: globals_of_def)
  then show "\<exists>new. trace_of ?st' = trace_of st @ new" by (rule exI)
next
  let ?h' = "snd (generateArray_h rnd inp h)"
  note s = generateArray_h_sim[of rnd inp h]
  have m: "\<forall>v. trace_of (?h'\<lparr>store := (store ?h')(array_var ?h' := v)\<rparr>) = trace_of ?h'"
    using s trace_of_after_mutation by blast
  show "let h' = snd (generateArray_h rnd inp h) in
        fst (generateArray_h rnd inp h) = fst (generateArray rnd inp (globals_of h))
      \<and> trace_of h' = steps (snd (generateArray rnd inp (globals_of h)))
      \<and> distinct (map array_ref (steps_h h'))
      \<and> (\<forall>v. trace_of (h'\<lparr>store := (store h')(array_var h' := v)\<rparr>) = trace_of h')"
    unfolding Let_def using s m by (intro conjI) simp_all
qed

theorem snapshots_independent_witness:
  "trace_of (saveStep_h 1 no_highlight (snd (newArray [Finite 2, Finite 1] initial_heap)))
     = trace_of (snd (newArray [Finite 2, Finite 1] initial_heap))
       @ [\<lparr>array = store (snd (newArray [Finite 2, Finite 1] initial_heap)) 1, highlight = no_highlight\<rparr>]
   \<and> (\<forall>v. trace_of ((saveStep_h 1 no_highlight (snd (newArray [Finite 2, Finite 1] initial_heap)))
              \<lparr>store := (store (saveStep_h 1 no_highlight (snd (newArray [Finite 2, Finite 1] initial_heap))))
                          (1 := v)\<rparr>)
          = trace_of (saveStep_h 1 no_highlight (snd (newArray [Finite 2, Finite 1] initial_heap))))
   \<and> (\<exists>new. trace_of (randomizedQuickSort_h (\<lambda>_. 0) (snd (newArray [Finite 2, Finite 1] initial_heap)) 1 0 1)
          = trace_of (snd (newArray [Finite 2, Finite 1] initial_heap)) @ new)
   \<and> trace_of (snd (generateArray_h (\<lambda>_. 0) (Numbers [Finite 2, Finite 1]) initial_heap))
     = steps (snd (generateArray (\<lambda>_. 0) (Numbers [Finite 2, Finite 1]) (globals_of initial_heap)))
   \<and> (\<forall>v. trace_of ((snd (generateArray_h (\<lambda>_. 0) (Numbers [Finite 2, Finite 1]) initial_heap))
              \<lparr>store := (store (snd (generateArray_h (\<lambda>_. 0) (Numbers [Finite 2, Finite 1]) initial_heap)))
                 (array_var (snd (generateArray_h (\<lambda>_. 0) (Numbers [Finite 2, Finite 1]) initial_heap)) := v)\<rparr>)
          = trace_of (snd (generateArray_h (\<lambda>_. 0) (Numbers [Finite 2, Finite 1]) initial_heap)))"
proof -
  let ?S = "snd (newArray [Finite 2, Finite 1] initial_heap)"
  have hyp: "allocated ?S \<and> apart ?S 1"
    by (simp add: allocated_def apart_def initial_heap_def)
  from snapshots_independent[of ?S 1 no_highlight "\<lambda>_. 0" 0 1 "Numbers [Finite 2, Finite 1]" initial_heap]
    hyp
  show ?thesis unfolding Let_def by blast
qed

end
